theory Spec2Isabelle
  imports Main "HOL-Library.Sublist"
begin

section \<open>Strings and the Python string primitives used by dependency2tree.py\<close>

text \<open>
  Python strings are modelled as \<^typ>\<open>string\<close>, one \<^typ>\<open>char\<close> per code point
  (code points above 255 are outside the model). Python integers are \<^typ>\<open>int\<close>.
  Characters that cannot be written inside a literal are given by their code.
\<close>

definition BACKSLASH :: char where
  "BACKSLASH = CHR 0x5C"

definition DQUOTE :: char where
  "DQUOTE = CHR 0x22"

definition NEWLINE :: char where
  "NEWLINE = CHR 0x0A"

definition TAB :: char where
  "TAB = CHR 0x09"

text \<open>
  \<^verbatim>\<open>s.replace(c, r)\<close> for a pattern \<open>c\<close> of one character: every occurrence of the
  character is replaced, left to right.
\<close>

definition replace_chr :: "char \<Rightarrow> string \<Rightarrow> string \<Rightarrow> string" where
  "replace_chr c r s = concat (map (\<lambda>x. if x = c then r else [x]) s)"

text \<open>\<^verbatim>\<open>sep.join(xs)\<close>.\<close>

fun join :: "string \<Rightarrow> string list \<Rightarrow> string" where
  "join sep [] = []"
| "join sep [x] = x"
| "join sep (x # y # ys) = x @ sep @ join sep (y # ys)"

text \<open>The decimal numeral of a natural number, and \<^verbatim>\<open>"%d" % i\<close>.\<close>

definition digit_chr :: "nat \<Rightarrow> char" where
  "digit_chr d = ''0123456789'' ! d"

fun digits10 :: "nat \<Rightarrow> string" where
  "digits10 n = (if n < 10 then [digit_chr n] else digits10 (n div 10) @ [digit_chr (n mod 10)])"

declare digits10.simps [simp del]

definition fmt_d :: "int \<Rightarrow> string" where
  "fmt_d i = (if i < 0 then ''-'' @ digits10 (nat (- i)) else digits10 (nat i))"

text \<open>
  \<^verbatim>\<open>"%03d" % i\<close>: the numeral is filled with zeros on the left, after the sign, up to a
  width of three characters; a longer numeral is left as it is.
\<close>

definition fmt_03d :: "int \<Rightarrow> string" where
  "fmt_03d i =
     (if i < 0
      then ''-'' @ replicate (2 - length (digits10 (nat (- i)))) CHR ''0'' @ digits10 (nat (- i))
      else replicate (3 - length (digits10 (nat i))) CHR ''0'' @ digits10 (nat i))"

section \<open>Token\<close>

text \<open>
  \<^verbatim>\<open>
  class Token:
      def __init__(self, index, form, lemma, pos, feats, head, deplabel):
          self.index = index
          self.form = form
          self.lemma = lemma
          self.pos = pos
          self.feats = feats.replace("|", ", ")
          self.head = head
          self.deplabel = deplabel
  \<close>
  The field \<^verbatim>\<open>lemma\<close> is named \<open>lemma_f\<close>, \<^verbatim>\<open>lemma\<close> being a keyword.
\<close>

record token =
  index :: int
  form :: string
  lemma_f :: string
  pos :: string
  feats :: string
  head :: int
  deplabel :: string

definition Token :: "int \<Rightarrow> string \<Rightarrow> string \<Rightarrow> string \<Rightarrow> string \<Rightarrow> int \<Rightarrow> string \<Rightarrow> token" where
  "Token index' form' lemma' pos' feats' head' deplabel' =
     \<lparr> index = index', form = form', lemma_f = lemma', pos = pos',
       feats = replace_chr CHR ''|'' '', '' feats', head = head', deplabel = deplabel' \<rparr>"

section \<open>Sentence\<close>

datatype sentence = Sentence (tokens: "token list")

text \<open>
  \<^verbatim>\<open>
  def get_children_of(self, index):
      return [t for t in self.tokens if t.head == index]

  def has_children(self, index):
      for t in self.tokens:
          if t.head == index:
              return True
      return False
  \<close>
\<close>

definition get_children_of :: "sentence \<Rightarrow> int \<Rightarrow> token list" where
  "get_children_of s i = filter (\<lambda>t. head t = i) (tokens s)"

fun has_children_loop :: "token list \<Rightarrow> int \<Rightarrow> bool" where
  "has_children_loop [] i = False"
| "has_children_loop (t # ts) i = (if head t = i then True else has_children_loop ts i)"

definition has_children :: "sentence \<Rightarrow> int \<Rightarrow> bool" where
  "has_children s i = has_children_loop (tokens s) i"

text \<open>
  The loop \<^verbatim>\<open>for child in children: res += render(child)\<close> of both renderers: the
  rendering of each child is appended to the accumulator \<open>res\<close>, in the order of the
  list. A rendering that raises (\<open>None\<close>) ends the loop with its exception.
\<close>

fun append_rendered :: "(token \<Rightarrow> string option) \<Rightarrow> token list \<Rightarrow> string \<Rightarrow> string option" where
  "append_rendered r [] res = Some res"
| "append_rendered r (c # cs) res =
     (case r c of None \<Rightarrow> None | Some x \<Rightarrow> append_rendered r cs (res @ x))"

subsection \<open>The LaTeX renderer\<close>

text \<open>
  \<^verbatim>\<open>
  def _token2latex(self, token, include_feats):
      feats = "\\\\ {\\tiny %s}" % token.feats \
          if include_feats and token.feats else ""
      res = "[.{%s\\\\%s (%s)%s} " % (token.deplabel,
          token.form, token.pos, feats)
      for child in self.get_children_of(token.index):
          res += self._token2latex(child, include_feats)
      res += " ]"
      return res
  \<close>
  The recursion follows the head pointers of the input, and Python bounds its depth:
  a call that would exceed the recursion limit raises \<^verbatim>\<open>RecursionError\<close>, which nothing
  in the program catches. The first argument is the number of nested calls of the
  renderer that the call stack still admits: the recursion limit (1000 unless it was
  changed) less the frames in use when the rendering of the sentence starts and the
  frames of the calls that every call of the renderer makes itself (\<^verbatim>\<open>get_children_of\<close>
  and the like), so somewhat below 1000 when the script renders a sentence. The result
  \<open>None\<close> is the exception \<^verbatim>\<open>RecursionError\<close>: the depth that the stack admits was
  reached, in this call or in the rendering of a descendant.
\<close>

fun token2latex :: "nat \<Rightarrow> sentence \<Rightarrow> token \<Rightarrow> bool \<Rightarrow> string option" where
  "token2latex 0 s t include_feats = None"
| "token2latex (Suc n) s t include_feats =
     (let fts = (if include_feats \<and> feats t \<noteq> []
                 then [BACKSLASH, BACKSLASH] @ '' {'' @ [BACKSLASH] @ ''tiny '' @ feats t @ ''}''
                 else []);
          res = ''[.{'' @ deplabel t @ [BACKSLASH, BACKSLASH] @ form t
                 @ '' ('' @ pos t @ '')'' @ fts @ ''} ''
      in case append_rendered (\<lambda>child. token2latex n s child include_feats)
                (get_children_of s (index t)) res of
           None \<Rightarrow> None
         | Some res' \<Rightarrow> Some (res' @ '' ]''))"

text \<open>
  \<^verbatim>\<open>
  def convert_to_latex(self, include_feats):
      res = "\\begin{center}" \
          + "\\begin{tikzpicture}" \
          + "\\tikzset{level distance=60pt}" \
          + "\\tikzset{every tree node/.style={align=center,anchor=north}}" \
          + "\\Tree "
      children = self.get_children_of(0)
      if len(children) > 1:
          res += "[ "
      for root in children:
          res += self._token2latex(root, include_feats)
      if len(children) > 1:
          res += "] "
      res += "\\end{tikzpicture}" \
          + "\\end{center}\n" \
          + "\\clearpage"
      res = res.replace("_", "-")
      return res
  \<close>
  \<open>assemble_latex\<close> is the value of \<^verbatim>\<open>res\<close> before the last assignment.
\<close>

definition latex_open :: string where
  "latex_open = [BACKSLASH] @ ''begin{center}''
     @ [BACKSLASH] @ ''begin{tikzpicture}''
     @ [BACKSLASH] @ ''tikzset{level distance=60pt}''
     @ [BACKSLASH] @ ''tikzset{every tree node/.style={align=center,anchor=north}}''
     @ [BACKSLASH] @ ''Tree ''"

definition latex_close :: string where
  "latex_close = [BACKSLASH] @ ''end{tikzpicture}''
     @ [BACKSLASH] @ ''end{center}'' @ [NEWLINE]
     @ [BACKSLASH] @ ''clearpage''"

definition assemble_latex :: "nat \<Rightarrow> sentence \<Rightarrow> bool \<Rightarrow> string option" where
  "assemble_latex n s include_feats =
     (let res = latex_open;
          children = get_children_of s 0;
          res = (if length children > 1 then res @ ''[ '' else res)
      in case append_rendered (\<lambda>root. token2latex n s root include_feats) children res of
           None \<Rightarrow> None
         | Some res \<Rightarrow>
             (let res = (if length children > 1 then res @ ''] '' else res)
              in Some (res @ latex_close)))"

definition convert_to_latex :: "nat \<Rightarrow> sentence \<Rightarrow> bool \<Rightarrow> string option" where
  "convert_to_latex n s include_feats =
     (case assemble_latex n s include_feats of
        None \<Rightarrow> None
      | Some res \<Rightarrow> Some (replace_chr CHR ''_'' ''-'' res))"

subsection \<open>The graphviz renderer\<close>

text \<open>
  \<^verbatim>\<open>
  def _token2graphviz(self, token, include_feats):
      res = 'n%d [label="%s\\n%s (%s)%s"];\n' % (token.index,
          *(s.replace('"', "&quot;") for s in (token.form, token.pos,
          token.deplabel, ("\\n%s" % token.feats) if include_feats and
          token.feats else "")))
      if self.has_children(token.index):
          res += 'n%d -> {%s};\n' % (token.index,
              " ".join("n%d" % c.index for c
              in self.get_children_of(token.index)))
      for child in self.get_children_of(token.index):
          res += self._token2graphviz(child, include_feats)
      return res
  \<close>
  The first argument and the result \<open>None\<close> are those of \<open>token2latex\<close>: the depth of
  recursion that the call stack admits, and \<^verbatim>\<open>RecursionError\<close>.
\<close>

definition quot :: "string \<Rightarrow> string" where
  "quot s = replace_chr DQUOTE ''&quot;'' s"

fun token2graphviz :: "nat \<Rightarrow> sentence \<Rightarrow> token \<Rightarrow> bool \<Rightarrow> string option" where
  "token2graphviz 0 s t include_feats = None"
| "token2graphviz (Suc n) s t include_feats =
     (let res = ''n'' @ fmt_d (index t) @ '' [label='' @ [DQUOTE]
                 @ quot (form t) @ [BACKSLASH] @ ''n'' @ quot (pos t)
                 @ '' ('' @ quot (deplabel t) @ '')''
                 @ quot (if include_feats \<and> feats t \<noteq> []
                         then [BACKSLASH] @ ''n'' @ feats t else [])
                 @ [DQUOTE] @ ''];'' @ [NEWLINE];
          res = (if has_children s (index t)
                 then res @ ''n'' @ fmt_d (index t) @ '' -> {''
                        @ join '' '' (map (\<lambda>c. ''n'' @ fmt_d (index c))
                                       (get_children_of s (index t)))
                        @ ''};'' @ [NEWLINE]
                 else res)
      in append_rendered (\<lambda>child. token2graphviz n s child include_feats)
           (get_children_of s (index t)) res)"

text \<open>
  \<^verbatim>\<open>
  def convert_to_graphviz(self, include_feats):
      res = "digraph tree {\n"
      for root in self.get_children_of(0):
          res += self._token2graphviz(root, include_feats)
      return res + "}"
  \<close>
\<close>

definition convert_to_graphviz :: "nat \<Rightarrow> sentence \<Rightarrow> bool \<Rightarrow> string option" where
  "convert_to_graphviz n s include_feats =
     (case append_rendered (\<lambda>root. token2graphviz n s root include_feats)
             (get_children_of s 0) (''digraph tree {'' @ [NEWLINE]) of
        None \<Rightarrow> None
      | Some res \<Rightarrow> Some (res @ ''}''))"

section \<open>The environment of a run\<close>

text \<open>
  What the program takes from Python's library and from the operating system is a
  parameter of the model:
  \<^item> \<open>int_of\<close> is the builtin \<^verbatim>\<open>int\<close> on strings (\<open>None\<close>: it raises \<^verbatim>\<open>ValueError\<close>);
  \<^item> \<open>splitext\<close> is \<^verbatim>\<open>os.path.splitext\<close>;
  \<^item> \<open>open_read\<close> gives the lines of a file as iterating over \<^verbatim>\<open>open(filename)\<close>
    yields them (\<open>None\<close>: the file cannot be opened);
  \<^item> \<open>open_write\<close> says whether a file can be opened for writing;
  \<^item> \<open>popen\<close> is the output of an external command on a given input (\<open>None\<close>: the
    command cannot be started);
  \<^item> \<open>run\<close> is \<^verbatim>\<open>subprocess.run(cmd, check=True)\<close>: the exception it raises, if any.
\<close>

datatype error =
    ValueError
  | IndexError
  | RuntimeError string
  | OSError
  | CalledProcessError
  | RecursionError

record env =
  int_of :: "string \<Rightarrow> int option"
  splitext :: "string \<Rightarrow> string \<times> string"
  open_read :: "string \<Rightarrow> string list option"
  open_write :: "string \<Rightarrow> bool"
  popen :: "string list \<Rightarrow> string \<Rightarrow> string option"
  run :: "string list \<Rightarrow> error option"

text \<open>
  The effects of a run, in the order in which they happen, and how a call ends: it
  returns or it raises. Every loop of the program runs over a finite list and the depth
  of the recursion is bounded, so every call ends.
\<close>

datatype event =
    Print string
  | OpenRead string
  | WriteFile string string
  | Popen "string list" string
  | Run "string list"

datatype 'a outcome = Returned 'a | Raised error

type_synonym 'a effect = "event list \<times> 'a outcome"

definition and_then :: "'a effect \<Rightarrow> ('a \<Rightarrow> 'b effect) \<Rightarrow> 'b effect" where
  "and_then m k =
     (case m of
        (evs, Returned x) \<Rightarrow> (case k x of (evs', r) \<Rightarrow> (evs @ evs', r))
      | (evs, Raised e) \<Rightarrow> (evs, Raised e))"

definition print :: "string \<Rightarrow> unit effect" where
  "print s = ([Print s], Returned ())"

text \<open>\<^verbatim>\<open>open(filename, 'w').write(data)\<close>.\<close>

definition write_file :: "env \<Rightarrow> string \<Rightarrow> string \<Rightarrow> unit effect" where
  "write_file E fname data =
     (if open_write E fname then ([WriteFile fname data], Returned ())
      else ([], Raised OSError))"

section \<open>GraphvizCompiler\<close>

text \<open>
  \<^verbatim>\<open>
  def compile(self, code, output_file):
      cmd = [self.command, '-T%s' % self.img_format]
      print("running command `%s`" % " ".join(cmd))
      proc = subprocess.Popen(cmd, stdin=subprocess.PIPE,
          stdout=subprocess.PIPE)
      res = proc.communicate(input=code.encode())[0]
      print("writing %s" % output_file)
      open(output_file, 'wb').write(res)
  \<close>
\<close>

record graphviz_compiler =
  command :: string
  img_format :: string

definition compile :: "env \<Rightarrow> graphviz_compiler \<Rightarrow> string \<Rightarrow> string \<Rightarrow> unit effect" where
  "compile E self code output_file =
     (let cmd = [command self, ''-T'' @ img_format self]
      in and_then (print (''running command `'' @ join '' '' cmd @ ''`'')) (\<lambda>_.
         case popen E cmd code of
           None \<Rightarrow> ([Popen cmd code], Raised OSError)
         | Some res \<Rightarrow>
             and_then ([Popen cmd code], Returned ()) (\<lambda>_.
             and_then (print (''writing '' @ output_file)) (\<lambda>_.
             write_file E output_file res))))"

section \<open>ConllFile\<close>

text \<open>\<^verbatim>\<open>s.strip()\<close> and \<^verbatim>\<open>s.split(sep)\<close> for a separator of one character.\<close>

definition is_space :: "char \<Rightarrow> bool" where
  "is_space c = (of_char c \<in> set [9, 10, 11, 12, 13, 28, 29, 30, 31, 32, 133, 160 :: nat])"

definition strip :: "string \<Rightarrow> string" where
  "strip s = rev (dropWhile is_space (rev (dropWhile is_space s)))"

fun split_str :: "char \<Rightarrow> string \<Rightarrow> string list" where
  "split_str sep [] = [[]]"
| "split_str sep (c # cs) =
     (if c = sep then [] # split_str sep cs
      else (case split_str sep cs of
              [] \<Rightarrow> [[c]]
            | w # ws \<Rightarrow> (c # w) # ws))"

text \<open>\<^verbatim>\<open>xs[i]\<close>, which raises \<^verbatim>\<open>IndexError\<close> out of range, and \<^verbatim>\<open>int(s)\<close>.\<close>

definition item :: "'a list \<Rightarrow> nat \<Rightarrow> error + 'a" where
  "item xs i = (if i < length xs then Inr (xs ! i) else Inl IndexError)"

definition to_int :: "env \<Rightarrow> string \<Rightarrow> error + int" where
  "to_int E s = (case int_of E s of None \<Rightarrow> Inl ValueError | Some i \<Rightarrow> Inr i)"

definition bind_err :: "error + 'a \<Rightarrow> ('a \<Rightarrow> error + 'b) \<Rightarrow> error + 'b" where
  "bind_err m k = (case m of Inl e \<Rightarrow> Inl e | Inr x \<Rightarrow> k x)"

text \<open>
  \<^verbatim>\<open>
  # ID FORM LEMMA CPOSTAG POSTAG FEATS HEAD DEPREL PHEAD PDEPREL
  token = Token(
      index=int(split[0]),
      form=split[1],
      lemma=split[2],
      pos=split[3],
      feats=split[5],
      head=int(split[6]),
      deplabel=split[7])
  \<close>
  The arguments are evaluated from left to right; the first that raises decides the
  exception.
\<close>

definition make_token :: "env \<Rightarrow> string list \<Rightarrow> error + token" where
  "make_token E split =
     bind_err (item split 0) (\<lambda>c0.
     bind_err (to_int E c0) (\<lambda>index'.
     bind_err (item split 1) (\<lambda>form'.
     bind_err (item split 2) (\<lambda>lemma'.
     bind_err (item split 3) (\<lambda>pos'.
     bind_err (item split 5) (\<lambda>feats'.
     bind_err (item split 6) (\<lambda>c6.
     bind_err (to_int E c6) (\<lambda>head'.
     bind_err (item split 7) (\<lambda>deplabel'.
     Inr (Token index' form' lemma' pos' feats' head' deplabel'))))))))))"

record conll_file =
  filename :: string
  sentences :: "sentence list"
  ignore_double_indices :: bool

definition ConllFile :: "string \<Rightarrow> bool \<Rightarrow> conll_file" where
  "ConllFile filename' ignore_double_indices' =
     \<lparr> filename = filename', sentences = [], ignore_double_indices = ignore_double_indices' \<rparr>"

text \<open>
  \<^verbatim>\<open>
  def read(self):
      tokens = []
      for line in open(self.filename):
          line = line.strip()
          if not line:
              if tokens:
                  self.sentences.append(Sentence(tokens))
                  tokens = []
              continue
          split = line.split("\t")
          if self.ignore_double_indices and "-" in split[0]:
              continue
          token = Token(...)
          tokens.append(token)
      if tokens:
          self.sentences.append(Sentence(tokens))
  \<close>
  \<open>read_loop\<close> is the \<^verbatim>\<open>for\<close> loop, on the lines left to read, with the values of
  \<^verbatim>\<open>tokens\<close> and \<^verbatim>\<open>self.sentences\<close>.
\<close>

fun read_loop :: "env \<Rightarrow> bool \<Rightarrow> string list \<Rightarrow> token list \<Rightarrow> sentence list
    \<Rightarrow> error + (token list \<times> sentence list)" where
  "read_loop E idi [] toks sents = Inr (toks, sents)"
| "read_loop E idi (line # rest) toks sents =
     (let line = strip line in
      if line = [] then
        (if toks \<noteq> [] then read_loop E idi rest [] (sents @ [Sentence toks])
         else read_loop E idi rest toks sents)
      else
        (let split = split_str TAB line in
         case item split 0 of
           Inl e \<Rightarrow> Inl e
         | Inr c0 \<Rightarrow>
             if idi \<and> CHR ''-'' \<in> set c0 then read_loop E idi rest toks sents
             else (case make_token E split of
                     Inl e \<Rightarrow> Inl e
                   | Inr token \<Rightarrow> read_loop E idi rest (toks @ [token]) sents)))"

definition read :: "env \<Rightarrow> conll_file \<Rightarrow> conll_file effect" where
  "read E self =
     (case open_read E (filename self) of
        None \<Rightarrow> ([OpenRead (filename self)], Raised OSError)
      | Some lines \<Rightarrow>
          (case read_loop E (ignore_double_indices self) lines [] (sentences self) of
             Inl e \<Rightarrow> ([OpenRead (filename self)], Raised e)
           | Inr (toks, sents) \<Rightarrow>
               ([OpenRead (filename self)],
                Returned (self\<lparr>sentences :=
                  (if toks \<noteq> [] then sents @ [Sentence toks] else sents)\<rparr>))))"

text \<open>
  \<^verbatim>\<open>
  def write_graphviz(self, output_file, gv_compiler, include_feats):
      self.read()
      count = 1
      for sent in self.sentences:
          code = sent.convert_to_graphviz(include_feats)
          if output_file:
              base, ext = os.path.splitext(output_file)
              filename = base + "-%03d" % count + ext
              count += 1
              if gv_compiler:
                  gv_compiler.compile(code, filename)
              else:
                  print("writing %s" % filename)
                  open(filename, 'w').write(code)
          else:
              print(code)
  \<close>
  \<open>write_graphviz_loop\<close> is the \<^verbatim>\<open>for\<close> loop, on the sentences left to write, with
  the value of \<^verbatim>\<open>count\<close>. The first argument is the depth of
  the renderers' recursion that the call stack admits.
\<close>

fun write_graphviz_loop :: "env \<Rightarrow> nat \<Rightarrow> sentence list \<Rightarrow> string
    \<Rightarrow> graphviz_compiler option \<Rightarrow> bool \<Rightarrow> int \<Rightarrow> unit effect" where
  "write_graphviz_loop E n [] output_file gv_compiler include_feats count = ([], Returned ())"
| "write_graphviz_loop E n (sent # rest) output_file gv_compiler include_feats count =
     (case convert_to_graphviz n sent include_feats of
        None \<Rightarrow> ([], Raised RecursionError)
      | Some code \<Rightarrow>
          if output_file \<noteq> [] then
            (case splitext E output_file of
               (base, ext) \<Rightarrow>
                 (let fname = base @ ''-'' @ fmt_03d count @ ext;
                      count = count + 1
                  in and_then
                       (case gv_compiler of
                          Some c \<Rightarrow> compile E c code fname
                        | None \<Rightarrow>
                            and_then (print (''writing '' @ fname)) (\<lambda>_.
                            write_file E fname code))
                       (\<lambda>_. write_graphviz_loop E n rest output_file gv_compiler
                               include_feats count)))
          else
            and_then (print code)
              (\<lambda>_. write_graphviz_loop E n rest output_file gv_compiler include_feats count))"

definition write_graphviz :: "env \<Rightarrow> nat \<Rightarrow> conll_file \<Rightarrow> string
    \<Rightarrow> graphviz_compiler option \<Rightarrow> bool \<Rightarrow> unit effect" where
  "write_graphviz E n self output_file gv_compiler include_feats =
     and_then (read E self) (\<lambda>self.
     write_graphviz_loop E n (sentences self) output_file gv_compiler include_feats 1)"

text \<open>
  \<^verbatim>\<open>
  def write_latex(self, output_file, command, include_feats):
      self.read()
      code = "\\documentclass[10pt,landscape]{article}\n" \
          + ... \
          + "\\begin{document}\n\n"
      for sent in self.sentences:
          code += sent.convert_to_latex(include_feats) + "\n\n"
      code += "\\end{document}\n"
      if output_file:
          print("writing %s" % output_file)
          open(output_file, 'w').write(code)
          if command:
              subprocess.run([command, output_file], check=True)
      else:
          print(code)
  \<close>
\<close>

definition latex_preamble :: string where
  "latex_preamble =
     [BACKSLASH] @ ''documentclass[10pt,landscape]{article}'' @ [NEWLINE]
     @ [BACKSLASH] @ ''usepackage[a2paper,margin=1cm]{geometry}'' @ [NEWLINE]
     @ [BACKSLASH] @ ''usepackage{fontspec}'' @ [NEWLINE]
     @ [BACKSLASH] @ ''defaultfontfeatures{Ligatures=TeX}'' @ [NEWLINE]
     @ [BACKSLASH] @ ''setmainfont[BoldFont={Gentium Basic-bold}, BoldItalicFont={Gentium Basic-bold-italic}, SmallCapsFont={Linux Libertine Capitals O}]{Gentium}'' @ [NEWLINE]
     @ [BACKSLASH] @ ''usepackage{tikz}'' @ [NEWLINE]
     @ [BACKSLASH] @ ''usepackage{tikz-qtree}'' @ [NEWLINE]
     @ [BACKSLASH] @ ''pagestyle{empty}'' @ [NEWLINE]
     @ [BACKSLASH] @ ''begin{document}'' @ [NEWLINE, NEWLINE]"

fun write_latex_loop :: "nat \<Rightarrow> sentence list \<Rightarrow> bool \<Rightarrow> string \<Rightarrow> string option" where
  "write_latex_loop n [] include_feats code = Some code"
| "write_latex_loop n (sent # rest) include_feats code =
     (case convert_to_latex n sent include_feats of
        None \<Rightarrow> None
      | Some block \<Rightarrow> write_latex_loop n rest include_feats (code @ block @ [NEWLINE, NEWLINE]))"

definition write_latex :: "env \<Rightarrow> nat \<Rightarrow> conll_file \<Rightarrow> string \<Rightarrow> string \<Rightarrow> bool
    \<Rightarrow> unit effect" where
  "write_latex E n self output_file cmd include_feats =
     and_then (read E self) (\<lambda>self.
     case write_latex_loop n (sentences self) include_feats latex_preamble of
       None \<Rightarrow> ([], Raised RecursionError)
     | Some code \<Rightarrow>
         (let code = code @ [BACKSLASH] @ ''end{document}'' @ [NEWLINE]
          in if output_file \<noteq> [] then
               and_then (print (''writing '' @ output_file)) (\<lambda>_.
               and_then (write_file E output_file code) (\<lambda>_.
               if cmd \<noteq> [] then
                 (case run E [cmd, output_file] of
                    Some e \<Rightarrow> ([Run [cmd, output_file]], Raised e)
                  | None \<Rightarrow> ([Run [cmd, output_file]], Returned ()))
               else ([], Returned ())))
             else print code))"

section \<open>Arguments and main\<close>

text \<open>
  \<^verbatim>\<open>
  args = parser.parse_args()
  if args.latex_mode:
      args.mode = 'latex'
  args.mode = MODE_LATEX if args.mode == 'latex' else MODE_GRAPHVIZ
  if args.compile and not args.command:
      args.command = 'lualatex' if args.mode == MODE_LATEX else 'dot'
  if args.compile and not args.output_file:
      raise RuntimeError(
          "you need to specify an output file when using the -c switch")
  return args
  \<close>
  The model starts from the namespace that \<^verbatim>\<open>parser.parse_args()\<close> returns, with one
  field for each declared argument (named \<open>arg_\<close> and the argument's \<^verbatim>\<open>dest\<close>). The
  field \<^verbatim>\<open>mode\<close> holds a string at first and one of the two mode constants afterwards.
\<close>

definition MODE_LATEX :: int where
  "MODE_LATEX = 1"

definition MODE_GRAPHVIZ :: int where
  "MODE_GRAPHVIZ = 2"

record 'm args =
  arg_input_file :: string
  arg_output_file :: string
  arg_mode :: 'm
  arg_latex_mode :: bool
  arg_include_feats :: bool
  arg_compile :: bool
  arg_ignore_double_indices :: bool
  arg_command :: string
  arg_img_format :: string

definition set_mode :: "'a args \<Rightarrow> 'b \<Rightarrow> 'b args" where
  "set_mode a m =
     \<lparr> arg_input_file = arg_input_file a, arg_output_file = arg_output_file a,
       arg_mode = m, arg_latex_mode = arg_latex_mode a,
       arg_include_feats = arg_include_feats a, arg_compile = arg_compile a,
       arg_ignore_double_indices = arg_ignore_double_indices a,
       arg_command = arg_command a, arg_img_format = arg_img_format a \<rparr>"

definition parse_args :: "string args \<Rightarrow> error + int args" where
  "parse_args parsed =
     (let a = (if arg_latex_mode parsed then set_mode parsed ''latex'' else parsed);
          a = set_mode a (if arg_mode a = ''latex'' then MODE_LATEX else MODE_GRAPHVIZ);
          a = (if arg_compile a \<and> arg_command a = []
               then a\<lparr>arg_command :=
                      (if arg_mode a = MODE_LATEX then ''lualatex'' else ''dot'')\<rparr>
               else a)
      in if arg_compile a \<and> arg_output_file a = []
         then Inl (RuntimeError
                ''you need to specify an output file when using the -c switch'')
         else Inr a)"

text \<open>
  \<^verbatim>\<open>
  def main():
      args = parse_args()
      conll_file = ConllFile(
          args.input_file,
          ignore_double_indices=args.ignore_double_indices
      )
      if args.mode == MODE_LATEX:
          conll_file.write_latex(args.output_file, command=args.command,
              include_feats=args.include_feats)
      else:
          if args.compile:
              gv_compiler = GraphvizCompiler(command=args.command,
                  img_format=args.img_format)
          else:
              gv_compiler = None
          conll_file.write_graphviz(args.output_file, gv_compiler=gv_compiler,
              include_feats=args.include_feats)
  \<close>
\<close>

definition GraphvizCompiler :: "string \<Rightarrow> string \<Rightarrow> graphviz_compiler" where
  "GraphvizCompiler command' img_format' = \<lparr> command = command', img_format = img_format' \<rparr>"

definition main :: "env \<Rightarrow> nat \<Rightarrow> string args \<Rightarrow> unit effect" where
  "main E n parsed =
     (case parse_args parsed of
        Inl e \<Rightarrow> ([], Raised e)
      | Inr a \<Rightarrow>
          (let conll_file = ConllFile (arg_input_file a) (arg_ignore_double_indices a)
           in if arg_mode a = MODE_LATEX then
                write_latex E n conll_file (arg_output_file a) (arg_command a)
                  (arg_include_feats a)
              else
                (let gv_compiler =
                       (if arg_compile a
                        then Some (GraphvizCompiler (arg_command a) (arg_img_format a))
                        else None)
                 in write_graphviz E n conll_file (arg_output_file a) gv_compiler
                      (arg_include_feats a))))"

section \<open>Example inputs\<close>

text \<open>
  The sentence \<^verbatim>\<open>Le chat\<close>: token 1 depends on token 2, which is the root. The feature
  column holds the placeholder \<^verbatim>\<open>_\<close>.
\<close>

definition ex_le :: token where
  "ex_le = Token 1 ''Le'' ''le'' ''DET'' ''_'' 2 ''det''"

definition ex_chat :: token where
  "ex_chat = Token 2 ''chat'' ''chat'' ''NOUN'' ''_'' 0 ''root''"

definition ex_sentence :: sentence where
  "ex_sentence = Sentence [ex_le, ex_chat]"

text \<open>Two tokens without a head: a forest of two roots.\<close>

definition ex_two_roots :: sentence where
  "ex_two_roots = Sentence [Token 1 ''oui'' ''oui'' ''ADV'' ''_'' 0 ''root'',
                            Token 2 ''non'' ''non'' ''ADV'' ''_'' 0 ''root'']"

text \<open>The example sentence with other lemmas.\<close>

definition ex_other_lemmas :: sentence where
  "ex_other_lemmas = Sentence [Token 1 ''Le'' ''LE'' ''DET'' ''_'' 2 ''det'',
                               Token 2 ''chat'' ''felis'' ''NOUN'' ''_'' 0 ''root'']"

text \<open>\<^verbatim>\<open>Le petit chat\<close>: two tokens share the head 3.\<close>

definition ex_petit :: sentence where
  "ex_petit = Sentence [Token 1 ''Le'' ''le'' ''DET'' ''_'' 3 ''det'',
                        Token 2 ''petit'' ''petit'' ''ADJ'' ''_'' 3 ''amod'',
                        Token 3 ''chat'' ''chat'' ''NOUN'' ''_'' 0 ''root'']"

text \<open>
  Two tokens, each the head of the other: unique indices, every head the index of the
  other token, and a cycle. And one token with index 0 that is its own head.
\<close>

definition ex_cycle :: sentence where
  "ex_cycle = Sentence [Token 1 ''Le'' ''le'' ''DET'' ''_'' 2 ''det'',
                        Token 2 ''chat'' ''chat'' ''NOUN'' ''_'' 1 ''nsubj'']"

definition ex_zero :: sentence where
  "ex_zero = Sentence [Token 0 ''chat'' ''chat'' ''NOUN'' ''_'' 0 ''root'']"

text \<open>
  An environment for the examples. \<open>posix_splitext\<close> follows \<^verbatim>\<open>posixpath.splitext\<close> of
  Python's library: the extension starts at the last dot of the last path component,
  unless only dots come before it in that component. \<open>decimal_int\<close> reads a decimal
  numeral with an optional minus sign, on which it agrees with \<^verbatim>\<open>int\<close>. Every file
  can be written, and the external commands succeed with an empty output.
\<close>

definition rfind :: "char \<Rightarrow> string \<Rightarrow> int" where
  "rfind c s = (case filter (\<lambda>k. s ! k = c) (rev [0..<length s]) of [] \<Rightarrow> - 1 | k # _ \<Rightarrow> int k)"

definition posix_splitext :: "string \<Rightarrow> string \<times> string" where
  "posix_splitext p =
     (let sepIndex = rfind CHR ''/'' p;
          dotIndex = rfind CHR ''.'' p
      in if dotIndex > sepIndex
            \<and> list_ex (\<lambda>k. p ! k \<noteq> CHR ''.'') [nat (sepIndex + 1)..<nat dotIndex]
         then (take (nat dotIndex) p, drop (nat dotIndex) p)
         else (p, []))"

definition digit_of :: "char \<Rightarrow> nat option" where
  "digit_of c = (if c \<in> set ''0123456789'' then Some (of_char c - 48) else None)"

fun nat_of_digits :: "string \<Rightarrow> nat \<Rightarrow> nat option" where
  "nat_of_digits [] acc = Some acc"
| "nat_of_digits (c # cs) acc =
     (case digit_of c of None \<Rightarrow> None | Some d \<Rightarrow> nat_of_digits cs (10 * acc + d))"

definition decimal_int :: "string \<Rightarrow> int option" where
  "decimal_int s =
     (case s of
        [] \<Rightarrow> None
      | c # cs \<Rightarrow>
          if c = CHR ''-''
          then (if cs = [] then None else map_option (\<lambda>n. - int n) (nat_of_digits cs 0))
          else map_option int (nat_of_digits s 0))"

text \<open>
  A file of three sentences, one token per line, the columns separated by tabs. The
  coarse (4th) and fine (5th) part-of-speech columns differ.
\<close>

definition ex_line :: "string list \<Rightarrow> string" where
  "ex_line cols = join [TAB] cols @ [NEWLINE]"

definition ex_lines :: "string list" where
  "ex_lines =
     [ex_line [''1'', ''Le'', ''le'', ''DET'', ''DT'', ''_'', ''2'', ''det'', ''_'', ''_''],
      ex_line [''2'', ''chat'', ''chat'', ''NOUN'', ''NN'', ''_'', ''0'', ''root'', ''_'', ''_''],
      [NEWLINE],
      ex_line [''1'', ''oui'', ''oui'', ''ADV'', ''RB'', ''_'', ''0'', ''root'', ''_'', ''_''],
      [NEWLINE],
      ex_line [''1'', ''non'', ''non'', ''ADV'', ''RB'', ''_'', ''0'', ''root'', ''_'', ''_'']]"

definition ex_env :: env where
  "ex_env = \<lparr> int_of = decimal_int, splitext = posix_splitext,
              open_read = (\<lambda>f. if f = ''in.conll'' then Some ex_lines else None),
              open_write = (\<lambda>f. True),
              popen = (\<lambda>cmd input. Some []),
              run = (\<lambda>cmd. None) \<rparr>"



text \<open>Arguments that ask for compilation and give no output file.\<close>

definition ex_args :: "string args" where
  "ex_args = \<lparr> arg_input_file = ''in.conll'', arg_output_file = [], arg_mode = ''graphviz'',
               arg_latex_mode = False, arg_include_feats = False, arg_compile = True,
               arg_ignore_double_indices = False, arg_command = [], arg_img_format = ''svg'' \<rparr>"

section \<open>Vocabulary of the properties\<close>

text \<open>Two tokens that agree on every field but, possibly, the lemma.\<close>

definition differ_only_in_lemma :: "token \<Rightarrow> token \<Rightarrow> bool" where
  "differ_only_in_lemma a b \<longleftrightarrow>
     index a = index b \<and> form a = form b \<and> pos a = pos b \<and> feats a = feats b
     \<and> head a = head b \<and> deplabel a = deplabel b"

text \<open>The pass of the LaTeX renderer over the assembled string.\<close>

abbreviation hyphenated :: "string \<Rightarrow> string" where
  "hyphenated \<equiv> replace_chr CHR ''_'' ''-''"



text \<open>
  The head pointers of a sentence as a relation from a token's index to its head, and
  the invariant of the data model: the head of every token is 0 or the index of exactly
  one other token.
\<close>

definition head_rel :: "sentence \<Rightarrow> (int \<times> int) set" where
  "head_rel s = (\<lambda>t. (index t, head t)) ` set (tokens s)"

definition head_invariant :: "sentence \<Rightarrow> bool" where
  "head_invariant s \<longleftrightarrow>
     list_all (\<lambda>t. head t = 0
                 \<or> length (filter (\<lambda>u. u \<noteq> t \<and> index u = head t) (tokens s)) = 1)
       (tokens s)"

text \<open>
  The tokens at depth \<open>d\<close> below the virtual root: the roots are at depth 0, and the
  children of a token at depth \<open>d\<close> are at depth \<open>d + 1\<close>.
\<close>

primrec level :: "sentence \<Rightarrow> nat \<Rightarrow> token set" where
  "level s 0 = {t \<in> set (tokens s). head t = 0}"
| "level s (Suc d) = {t \<in> set (tokens s). \<exists>p \<in> level s d. head t = index p}"

text \<open>
  The tokens that a renderer visits from a token, in the order of the visits: the token,
  then what is visited from each of the tokens that have its index as head, in the order
  of the sentence; the first argument is the depth of the visits. \<open>traversal\<close> is the
  list of the tokens visited in the rendering of a sentence: what is visited from each
  token with head 0, in the order of the sentence.
\<close>

fun visited :: "nat \<Rightarrow> sentence \<Rightarrow> token \<Rightarrow> token list" where
  "visited 0 s t = []"
| "visited (Suc n) s t =
     t # concat (map (visited n s) (filter (\<lambda>c. head c = index t) (tokens s)))"

definition traversal :: "nat \<Rightarrow> sentence \<Rightarrow> token list" where
  "traversal n s = concat (map (visited n s) (filter (\<lambda>t. head t = 0) (tokens s)))"

text \<open>
  The lines of one token in the graphviz output: the node line, with the fields escaped
  and the feature string if it is asked for and not empty, and then, if some token of
  the sentence has this token's index as head, the edge line from the token's node name
  to the node names of those tokens, in the order of the sentence.
\<close>

definition graphviz_lines :: "sentence \<Rightarrow> bool \<Rightarrow> token \<Rightarrow> string" where
  "graphviz_lines s include_feats t =
     ''n'' @ fmt_d (index t) @ '' [label='' @ [DQUOTE]
     @ quot (form t) @ [BACKSLASH] @ ''n'' @ quot (pos t) @ '' ('' @ quot (deplabel t) @ '')''
     @ (if include_feats \<and> feats t \<noteq> [] then [BACKSLASH] @ ''n'' @ quot (feats t) else [])
     @ [DQUOTE] @ ''];'' @ [NEWLINE]
     @ (if filter (\<lambda>c. head c = index t) (tokens s) \<noteq> []
        then ''n'' @ fmt_d (index t) @ '' -> {''
             @ join '' '' (map (\<lambda>c. ''n'' @ fmt_d (index c))
                            (filter (\<lambda>c. head c = index t) (tokens s)))
             @ ''};'' @ [NEWLINE]
        else [])"

text \<open>
  The block of one token in the LaTeX output, as it stands after the underscore pass: the
  opening with the fields, the feature segment if the feature string is asked for and
  not empty, the blocks of the tokens that have this token's index as head, in the order
  of the sentence, and the closing bracket. The first argument is the depth of the
  nesting.
\<close>

fun latex_text :: "nat \<Rightarrow> sentence \<Rightarrow> bool \<Rightarrow> token \<Rightarrow> string" where
  "latex_text 0 s include_feats t = []"
| "latex_text (Suc n) s include_feats t =
     ''[.{'' @ hyphenated (deplabel t) @ [BACKSLASH, BACKSLASH] @ hyphenated (form t)
     @ '' ('' @ hyphenated (pos t) @ '')''
     @ (if include_feats \<and> feats t \<noteq> []
        then [BACKSLASH, BACKSLASH] @ '' {'' @ [BACKSLASH] @ ''tiny '' @ hyphenated (feats t) @ ''}''
        else [])
     @ ''} ''
     @ concat (map (latex_text n s include_feats) (filter (\<lambda>c. head c = index t) (tokens s)))
     @ '' ]''"

text \<open>The tokens \<open>k\<close> head pointers below a token.\<close>

primrec under :: "sentence \<Rightarrow> token \<Rightarrow> nat \<Rightarrow> token set" where
  "under s c 0 = {c}"
| "under s c (Suc k) = {x \<in> set (tokens s). \<exists>p \<in> under s c k. head x = index p}"


section \<open>Auxiliary lemmas\<close>

lemmas ex_defs = ex_sentence_def ex_le_def ex_chat_def Token_def

lemma replace_chr_append: "replace_chr c r (a @ b) = replace_chr c r a @ replace_chr c r b"
  by (simp add: replace_chr_def)

lemma replace_chr_Nil: "replace_chr c r [] = []"
  by (simp add: replace_chr_def)

lemma replace_chr_Cons:
  "replace_chr c r (x # xs) = (if x = c then r else [x]) @ replace_chr c r xs"
  by (simp add: replace_chr_def)

lemma replace_chr_concat: "replace_chr c r (concat xs) = concat (map (replace_chr c r) xs)"
  by (induction xs) (simp_all add: replace_chr_append replace_chr_Nil)

lemma replace_chr_single: "replace_chr c [d] s = map (\<lambda>x. if x = c then d else x) s"
  by (induction s) (simp_all add: replace_chr_Nil replace_chr_Cons)

lemma replace_chr_absent: "c \<notin> set r \<Longrightarrow> c \<notin> set (replace_chr c r s)"
  by (induction s) (auto simp: replace_chr_Nil replace_chr_Cons)

text \<open>The loop of the renderers appends the renderings of the tokens, in their order.\<close>

lemma append_rendered_Some:
  "append_rendered r cs res = Some out \<longleftrightarrow>
     (\<exists>blocks. list_all2 (\<lambda>c b. r c = Some b) cs blocks \<and> out = res @ concat blocks)"
proof (induction cs arbitrary: res)
  case Nil
  show ?case by auto
next
  case (Cons c cs)
  show ?case
  proof (cases "r c")
    case None
    then show ?thesis by (auto simp: list_all2_Cons1)
  next
    case (Some x)
    then show ?thesis by (auto simp: Cons.IH list_all2_Cons1)
  qed
qed

lemma has_children_loop_iff:
  "has_children_loop ts i \<longleftrightarrow> filter (\<lambda>t. head t = i) ts \<noteq> []"
  by (induction ts) auto

lemma has_children_iff: "has_children s i \<longleftrightarrow> get_children_of s i \<noteq> []"
  by (simp add: has_children_def get_children_of_def has_children_loop_iff)

lemma us_latex_open: "replace_chr CHR ''_'' ''-'' latex_open = latex_open"
  by (simp add: latex_open_def replace_chr_def BACKSLASH_def)

lemma us_latex_close: "replace_chr CHR ''_'' ''-'' latex_close = latex_close"
  by (simp add: latex_close_def replace_chr_def BACKSLASH_def NEWLINE_def)

text \<open>The two renderings of the example sentence.\<close>

lemma ex_latex:
  "convert_to_latex 2 ex_sentence True =
     Some (latex_open @ ''[.{root'' @ [BACKSLASH, BACKSLASH] @ ''chat (NOUN)''
       @ [BACKSLASH, BACKSLASH] @ '' {'' @ [BACKSLASH] @ ''tiny -}} [.{det''
       @ [BACKSLASH, BACKSLASH] @ ''Le (DET)'' @ [BACKSLASH, BACKSLASH]
       @ '' {'' @ [BACKSLASH] @ ''tiny -}}  ] ]'' @ latex_close)"
  by (simp add: convert_to_latex_def assemble_latex_def get_children_of_def ex_defs
      numeral_2_eq_2 replace_chr_append replace_chr_Cons replace_chr_Nil
      us_latex_open us_latex_close BACKSLASH_def)

lemma ex_graphviz:
  "convert_to_graphviz 2 ex_sentence False =
     Some (''digraph tree {'' @ [NEWLINE]
       @ ''n2 [label='' @ [DQUOTE] @ ''chat'' @ [BACKSLASH] @ ''nNOUN (root)''
       @ [DQUOTE] @ ''];'' @ [NEWLINE]
       @ ''n2 -> {n1};'' @ [NEWLINE]
       @ ''n1 [label='' @ [DQUOTE] @ ''Le'' @ [BACKSLASH] @ ''nDET (det)''
       @ [DQUOTE] @ ''];'' @ [NEWLINE]
       @ ''}'')"
  by code_simp

section \<open>The underscore pass of the LaTeX renderer\<close>

text \<open>
  C7. For every sentence, once the LaTeX block is assembled, every underscore of the
  assembled string, in the fields and in the fixed markup alike, is replaced by a hyphen
  in one pass over the whole string: the block returned is the assembled string with
  each underscore mapped to a hyphen, and it contains no underscore.
\<close>

theorem latex_underscores_replaced:
  assumes "convert_to_latex n s include_feats = Some out"
  shows "\<exists>res. assemble_latex n s include_feats = Some res
           \<and> out = map (\<lambda>c. if c = CHR ''_'' then CHR ''-'' else c) res
           \<and> CHR ''_'' \<notin> set out"
proof -
  from assms obtain res where r: "assemble_latex n s include_feats = Some res"
    and o: "out = replace_chr CHR ''_'' ''-'' res"
    by (auto simp: convert_to_latex_def split: option.splits)
  have "CHR ''_'' \<notin> set out" unfolding o by (rule replace_chr_absent) simp
  with r o show ?thesis by (simp add: replace_chr_single)
qed

theorem latex_underscores_replaced_witness:
  "\<exists>out. convert_to_latex 2 ex_sentence True = Some out \<and> CHR ''_'' \<notin> set out"
  using latex_underscores_replaced [OF ex_latex] ex_latex by blast

text \<open>What one call of each renderer returns, when it returns.\<close>

lemma token2latex_Suc:
  "token2latex (Suc n) s t include_feats = Some out \<Longrightarrow>
     (\<exists>blocks. list_all2 (\<lambda>c b. token2latex n s c include_feats = Some b)
                 (get_children_of s (index t)) blocks
        \<and> out = ''[.{'' @ deplabel t @ [BACKSLASH, BACKSLASH] @ form t @ '' ('' @ pos t @ '')''
             @ (if include_feats \<and> feats t \<noteq> []
                then [BACKSLASH, BACKSLASH] @ '' {'' @ [BACKSLASH] @ ''tiny '' @ feats t @ ''}''
                else [])
             @ ''} '' @ concat blocks @ '' ]'')"
  by (auto simp: append_rendered_Some split: option.splits)

lemma token2graphviz_Suc:
  "token2graphviz (Suc n) s t include_feats = Some out \<Longrightarrow>
     (\<exists>blocks. list_all2 (\<lambda>c b. token2graphviz n s c include_feats = Some b)
                 (get_children_of s (index t)) blocks
        \<and> out = ''n'' @ fmt_d (index t) @ '' [label='' @ [DQUOTE]
             @ quot (form t) @ [BACKSLASH] @ ''n'' @ quot (pos t)
             @ '' ('' @ quot (deplabel t) @ '')''
             @ quot (if include_feats \<and> feats t \<noteq> [] then [BACKSLASH] @ ''n'' @ feats t else [])
             @ [DQUOTE] @ ''];'' @ [NEWLINE]
             @ (if get_children_of s (index t) \<noteq> []
                then ''n'' @ fmt_d (index t) @ '' -> {''
                       @ join '' '' (map (\<lambda>c. ''n'' @ fmt_d (index c))
                                      (get_children_of s (index t)))
                       @ ''};'' @ [NEWLINE]
                else [])
             @ concat blocks)"
  by (auto simp: append_rendered_Some has_children_iff Let_def)

lemma convert_to_latex_Some:
  "convert_to_latex n s include_feats = Some out \<Longrightarrow>
     (\<exists>blocks. list_all2 (\<lambda>root b. token2latex n s root include_feats = Some b)
                 (get_children_of s 0) blocks
        \<and> out = replace_chr CHR ''_'' ''-''
                  (latex_open
                   @ (if length (get_children_of s 0) > 1 then ''[ '' @ concat blocks @ ''] ''
                      else concat blocks)
                   @ latex_close))"
  by (auto simp: convert_to_latex_def assemble_latex_def append_rendered_Some Let_def
           split: option.splits)

lemma convert_to_graphviz_Some:
  "convert_to_graphviz n s include_feats = Some out \<Longrightarrow>
     (\<exists>blocks. list_all2 (\<lambda>root b. token2graphviz n s root include_feats = Some b)
                 (get_children_of s 0) blocks
        \<and> out = ''digraph tree {'' @ [NEWLINE] @ concat blocks @ ''}'')"
  by (auto simp: convert_to_graphviz_def append_rendered_Some split: option.splits)

lemma ex_two_roots_latex:
  "convert_to_latex 1 ex_two_roots False =
     Some (latex_open @ ''[ [.{root'' @ [BACKSLASH, BACKSLASH] @ ''oui (ADV)}  ][.{root''
       @ [BACKSLASH, BACKSLASH] @ ''non (ADV)}  ]] '' @ latex_close)"
  by (simp add: convert_to_latex_def assemble_latex_def get_children_of_def ex_two_roots_def
      Token_def replace_chr_append replace_chr_Cons replace_chr_Nil
      us_latex_open us_latex_close BACKSLASH_def)

lemma ex_two_roots_graphviz:
  "convert_to_graphviz 1 ex_two_roots False =
     Some (''digraph tree {'' @ [NEWLINE]
       @ ''n1 [label='' @ [DQUOTE] @ ''oui'' @ [BACKSLASH] @ ''nADV (root)''
       @ [DQUOTE] @ ''];'' @ [NEWLINE]
       @ ''n2 [label='' @ [DQUOTE] @ ''non'' @ [BACKSLASH] @ ''nADV (root)''
       @ [DQUOTE] @ ''];'' @ [NEWLINE]
       @ ''}'')"
  by code_simp

section \<open>The wrapper of a forest with several roots\<close>

text \<open>
  C3. For every sentence, the LaTeX renderer puts one more level of brackets
  (\<^verbatim>\<open>[ \<close> ... \<^verbatim>\<open>] \<close>) around the renderings of the roots exactly when two or more
  tokens have head 0, and none for one root (or for no root); the graphviz renderer never
  emits such a wrapper: the renderings of the roots follow the opening line directly.
\<close>

theorem multi_root_wrapper:
  "(convert_to_latex n s include_feats = Some out \<longrightarrow>
      (\<exists>blocks. list_all2 (\<lambda>root b. token2latex n s root include_feats = Some b)
                  (filter (\<lambda>t. head t = 0) (tokens s)) blocks
         \<and> out = replace_chr CHR ''_'' ''-''
                   (latex_open
                    @ (if 2 \<le> length (filter (\<lambda>t. head t = 0) (tokens s))
                       then ''[ '' @ concat blocks @ ''] ''
                       else concat blocks)
                    @ latex_close)))
   \<and> (convert_to_graphviz n s include_feats = Some out' \<longrightarrow>
      (\<exists>blocks. list_all2 (\<lambda>root b. token2graphviz n s root include_feats = Some b)
                  (filter (\<lambda>t. head t = 0) (tokens s)) blocks
         \<and> out' = ''digraph tree {'' @ [NEWLINE] @ concat blocks @ ''}''))"
proof (intro conjI impI)
  assume "convert_to_latex n s include_feats = Some out"
  then obtain blocks where
    "list_all2 (\<lambda>root b. token2latex n s root include_feats = Some b) (get_children_of s 0) blocks"
    "out = replace_chr CHR ''_'' ''-''
                  (latex_open
                   @ (if length (get_children_of s 0) > 1 then ''[ '' @ concat blocks @ ''] ''
                      else concat blocks)
                   @ latex_close)"
    by (blast dest: convert_to_latex_Some)
  moreover have "length (get_children_of s 0) > 1 \<longleftrightarrow> 2 \<le> length (get_children_of s 0)"
    by arith
  ultimately show "\<exists>blocks. list_all2 (\<lambda>root b. token2latex n s root include_feats = Some b)
                  (filter (\<lambda>t. head t = 0) (tokens s)) blocks
         \<and> out = replace_chr CHR ''_'' ''-''
                   (latex_open
                    @ (if 2 \<le> length (filter (\<lambda>t. head t = 0) (tokens s))
                       then ''[ '' @ concat blocks @ ''] ''
                       else concat blocks)
                    @ latex_close)"
    unfolding get_children_of_def by (intro exI [of _ blocks]) simp
next
  assume "convert_to_graphviz n s include_feats = Some out'"
  then show "\<exists>blocks. list_all2 (\<lambda>root b. token2graphviz n s root include_feats = Some b)
                  (filter (\<lambda>t. head t = 0) (tokens s)) blocks
         \<and> out' = ''digraph tree {'' @ [NEWLINE] @ concat blocks @ ''}''"
    using convert_to_graphviz_Some [of n s include_feats out'] by (simp add: get_children_of_def)
qed

theorem multi_root_wrapper_witness:
  "\<exists>out out'. convert_to_latex 1 ex_two_roots False = Some out
     \<and> convert_to_graphviz 1 ex_two_roots False = Some out'
     \<and> (\<exists>blocks. length blocks = 2
           \<and> out = replace_chr CHR ''_'' ''-''
                     (latex_open @ ''[ '' @ concat blocks @ ''] '' @ latex_close))
     \<and> (\<exists>blocks. length blocks = 2
           \<and> out' = ''digraph tree {'' @ [NEWLINE] @ concat blocks @ ''}'')"
proof -
  have two: "length (filter (\<lambda>t. head t = 0) (tokens ex_two_roots)) = 2"
    by (simp add: ex_two_roots_def Token_def)
  from multi_root_wrapper [of 1 ex_two_roots False _ _] ex_two_roots_latex ex_two_roots_graphviz
  show ?thesis
    unfolding two by (fastforce dest: list_all2_lengthD simp: two)
qed

section \<open>The lemma is not rendered\<close>

text \<open>Two sentences whose tokens differ in the lemma only have the same renderings.\<close>

lemma children_related:
  "list_all2 differ_only_in_lemma ts ts' \<Longrightarrow>
   list_all2 differ_only_in_lemma (filter (\<lambda>t. head t = i) ts) (filter (\<lambda>t. head t = i) ts')"
  by (induction rule: list_all2_induct) (auto simp: differ_only_in_lemma_def)

lemma append_rendered_related:
  "list_all2 R cs cs' \<Longrightarrow> (\<And>c c'. R c c' \<Longrightarrow> r c = r' c') \<Longrightarrow>
   append_rendered r cs res = append_rendered r' cs' res"
proof (induction arbitrary: res rule: list_all2_induct)
  case Nil
  show ?case by simp
next
  case (Cons x xs y ys)
  from Cons.prems Cons.hyps(1) have "r x = r' y" by blast
  with Cons.IH [OF Cons.prems] show ?case by (simp split: option.splits)
qed

lemma has_children_related:
  "list_all2 differ_only_in_lemma (tokens s) (tokens s') \<Longrightarrow>
   has_children s i = has_children s' i"
  using children_related [of "tokens s" "tokens s'" i]
  by (auto simp: has_children_def has_children_loop_iff)

lemma token2latex_related:
  assumes "list_all2 differ_only_in_lemma (tokens s) (tokens s')"
  shows "differ_only_in_lemma t t' \<Longrightarrow>
         token2latex n s t include_feats = token2latex n s' t' include_feats"
proof (induction n arbitrary: t t')
  case 0
  show ?case by simp
next
  case (Suc n)
  have ch: "list_all2 differ_only_in_lemma (get_children_of s (index t)) (get_children_of s' (index t'))"
    using children_related [OF assms, of "index t"] Suc.prems
    by (simp add: get_children_of_def differ_only_in_lemma_def)
  have "append_rendered (\<lambda>child. token2latex n s child include_feats) (get_children_of s (index t)) res
      = append_rendered (\<lambda>child. token2latex n s' child include_feats) (get_children_of s' (index t')) res"
    for res
    by (rule append_rendered_related [OF ch]) (rule Suc.IH)
  with Suc.prems show ?case by (simp add: differ_only_in_lemma_def)
qed

lemma token2graphviz_related:
  assumes "list_all2 differ_only_in_lemma (tokens s) (tokens s')"
  shows "differ_only_in_lemma t t' \<Longrightarrow>
         token2graphviz n s t include_feats = token2graphviz n s' t' include_feats"
proof (induction n arbitrary: t t')
  case 0
  show ?case by simp
next
  case (Suc n)
  have ch: "list_all2 differ_only_in_lemma (get_children_of s (index t)) (get_children_of s' (index t'))"
    using children_related [OF assms, of "index t"] Suc.prems
    by (simp add: get_children_of_def differ_only_in_lemma_def)
  have ar: "append_rendered (\<lambda>child. token2graphviz n s child include_feats) (get_children_of s (index t)) res
      = append_rendered (\<lambda>child. token2graphviz n s' child include_feats) (get_children_of s' (index t')) res"
    for res
    by (rule append_rendered_related [OF ch]) (rule Suc.IH)
  have nm: "map (\<lambda>c. ''n'' @ fmt_d (index c)) (get_children_of s (index t))
          = map (\<lambda>c. ''n'' @ fmt_d (index c)) (get_children_of s' (index t'))"
    using ch by (induction rule: list_all2_induct) (auto simp: differ_only_in_lemma_def)
  have hc: "has_children s (index t) = has_children s' (index t')"
    using has_children_related [OF assms, of "index t"] Suc.prems
    by (simp add: differ_only_in_lemma_def)
  from Suc.prems have eqs: "index t' = index t" "form t' = form t" "pos t' = pos t"
    "feats t' = feats t" "deplabel t' = deplabel t"
    by (simp_all add: differ_only_in_lemma_def)
  show ?case
    unfolding token2graphviz.simps Let_def ar nm hc eqs by (simp only: nm [unfolded eqs])
qed

text \<open>
  C10. For every pair of sentences that differ only in the lemmas of their tokens, both
  renderers return the same text, whatever \<^verbatim>\<open>include_feats\<close> is: the lemma is stored in
  the token and never reaches the rendered text.
\<close>

theorem lemma_never_rendered:
  assumes "list_all2 differ_only_in_lemma (tokens s) (tokens s')"
  shows "convert_to_latex n s include_feats = convert_to_latex n s' include_feats
       \<and> convert_to_graphviz n s include_feats = convert_to_graphviz n s' include_feats"
proof -
  have ch: "list_all2 differ_only_in_lemma (get_children_of s 0) (get_children_of s' 0)"
    using children_related [OF assms, of 0] by (simp add: get_children_of_def)
  then have len: "length (get_children_of s 0) = length (get_children_of s' 0)"
    by (rule list_all2_lengthD)
  have l: "append_rendered (\<lambda>root. token2latex n s root include_feats) (get_children_of s 0) res
         = append_rendered (\<lambda>root. token2latex n s' root include_feats) (get_children_of s' 0) res"
    for res
    by (rule append_rendered_related [OF ch]) (rule token2latex_related [OF assms])
  have g: "append_rendered (\<lambda>root. token2graphviz n s root include_feats) (get_children_of s 0) res
         = append_rendered (\<lambda>root. token2graphviz n s' root include_feats) (get_children_of s' 0) res"
    for res
    by (rule append_rendered_related [OF ch]) (rule token2graphviz_related [OF assms])
  show ?thesis
    unfolding convert_to_latex_def assemble_latex_def convert_to_graphviz_def Let_def l g len
    by simp
qed

theorem lemma_never_rendered_witness:
  "list_all2 differ_only_in_lemma (tokens ex_sentence) (tokens ex_other_lemmas)
   \<and> ex_sentence \<noteq> ex_other_lemmas
   \<and> convert_to_latex 2 ex_sentence True = convert_to_latex 2 ex_other_lemmas True
   \<and> convert_to_graphviz 2 ex_sentence True = convert_to_graphviz 2 ex_other_lemmas True"
proof -
  have r: "list_all2 differ_only_in_lemma (tokens ex_sentence) (tokens ex_other_lemmas)"
    by (simp add: ex_defs ex_other_lemmas_def differ_only_in_lemma_def)
  have "ex_sentence \<noteq> ex_other_lemmas"
    by (simp add: ex_defs ex_other_lemmas_def)
  with r lemma_never_rendered [OF r, of 2 True] show ?thesis by simp
qed

section \<open>The order of the children\<close>

lemma get_children_of_positions:
  "get_children_of s i =
     map (\<lambda>k. tokens s ! k) (filter (\<lambda>k. head (tokens s ! k) = i) [0..<length (tokens s)])"
proof -
  have "filter (\<lambda>t. head t = i) (map (\<lambda>k. tokens s ! k) [0..<length (tokens s)])
        = map (\<lambda>k. tokens s ! k) (filter (\<lambda>k. head (tokens s ! k) = i) [0..<length (tokens s)])"
    by (simp add: filter_map comp_def)
  then show ?thesis by (simp add: get_children_of_def map_nth)
qed

lemma ex_petit_token2latex:
  "token2latex 2 ex_petit (tokens ex_petit ! 2) False =
     Some (''[.{root'' @ [BACKSLASH, BACKSLASH] @ ''chat (NOUN)} [.{det''
       @ [BACKSLASH, BACKSLASH] @ ''Le (DET)}  ][.{amod''
       @ [BACKSLASH, BACKSLASH] @ ''petit (ADJ)}  ] ]'')"
  by code_simp

lemma ex_petit_token2graphviz:
  "token2graphviz 2 ex_petit (tokens ex_petit ! 2) False =
     Some (''n3 [label='' @ [DQUOTE] @ ''chat'' @ [BACKSLASH] @ ''nNOUN (root)''
       @ [DQUOTE] @ ''];'' @ [NEWLINE]
       @ ''n3 -> {n1 n2};'' @ [NEWLINE]
       @ ''n1 [label='' @ [DQUOTE] @ ''Le'' @ [BACKSLASH] @ ''nDET (det)''
       @ [DQUOTE] @ ''];'' @ [NEWLINE]
       @ ''n2 [label='' @ [DQUOTE] @ ''petit'' @ [BACKSLASH] @ ''nADJ (amod)''
       @ [DQUOTE] @ ''];'' @ [NEWLINE])"
  by code_simp

lemma ex_petit_latex:
  "convert_to_latex 2 ex_petit False =
     Some (latex_open @ ''[.{root'' @ [BACKSLASH, BACKSLASH] @ ''chat (NOUN)} [.{det''
       @ [BACKSLASH, BACKSLASH] @ ''Le (DET)}  ][.{amod''
       @ [BACKSLASH, BACKSLASH] @ ''petit (ADJ)}  ] ]'' @ latex_close)"
  by code_simp

lemma ex_petit_graphviz:
  "convert_to_graphviz 2 ex_petit False =
     Some (''digraph tree {'' @ [NEWLINE]
       @ ''n3 [label='' @ [DQUOTE] @ ''chat'' @ [BACKSLASH] @ ''nNOUN (root)''
       @ [DQUOTE] @ ''];'' @ [NEWLINE]
       @ ''n3 -> {n1 n2};'' @ [NEWLINE]
       @ ''n1 [label='' @ [DQUOTE] @ ''Le'' @ [BACKSLASH] @ ''nDET (det)''
       @ [DQUOTE] @ ''];'' @ [NEWLINE]
       @ ''n2 [label='' @ [DQUOTE] @ ''petit'' @ [BACKSLASH] @ ''nADJ (amod)''
       @ [DQUOTE] @ ''];'' @ [NEWLINE]
       @ ''}'')"
  by code_simp

text \<open>
  C5. For every sentence, every head index \<open>i\<close> and both renderers, the children of \<open>i\<close>
  (the tokens whose head is \<open>i\<close>) appear in the output in the order in which they appear
  in the input: \<^verbatim>\<open>get_children_of(i)\<close> returns the tokens at the positions whose head is
  \<open>i\<close>, by increasing position, and each renderer emits a token's text, then the
  renderings of its children in that order (depth first, pre-order), from the roots
  \<^verbatim>\<open>get_children_of(0)\<close> on.
\<close>

theorem children_in_appearance_order:
  "get_children_of s i =
     map (\<lambda>k. tokens s ! k) (filter (\<lambda>k. head (tokens s ! k) = i) [0..<length (tokens s)])
   \<and> (token2latex (Suc n) s t include_feats = Some out \<longrightarrow>
        (\<exists>blocks. list_all2 (\<lambda>c b. token2latex n s c include_feats = Some b)
                    (get_children_of s (index t)) blocks
           \<and> out = ''[.{'' @ deplabel t @ [BACKSLASH, BACKSLASH] @ form t
                @ '' ('' @ pos t @ '')''
                @ (if include_feats \<and> feats t \<noteq> []
                   then [BACKSLASH, BACKSLASH] @ '' {'' @ [BACKSLASH] @ ''tiny '' @ feats t @ ''}''
                   else [])
                @ ''} '' @ concat blocks @ '' ]''))
   \<and> (token2graphviz (Suc n) s t include_feats = Some out' \<longrightarrow>
        (\<exists>blocks. list_all2 (\<lambda>c b. token2graphviz n s c include_feats = Some b)
                    (get_children_of s (index t)) blocks
           \<and> out' = ''n'' @ fmt_d (index t) @ '' [label='' @ [DQUOTE]
                @ quot (form t) @ [BACKSLASH] @ ''n'' @ quot (pos t)
                @ '' ('' @ quot (deplabel t) @ '')''
                @ quot (if include_feats \<and> feats t \<noteq> []
                        then [BACKSLASH] @ ''n'' @ feats t else [])
                @ [DQUOTE] @ ''];'' @ [NEWLINE]
                @ (if get_children_of s (index t) \<noteq> []
                   then ''n'' @ fmt_d (index t) @ '' -> {''
                          @ join '' '' (map (\<lambda>c. ''n'' @ fmt_d (index c))
                                         (get_children_of s (index t)))
                          @ ''};'' @ [NEWLINE]
                   else [])
                @ concat blocks))
   \<and> (convert_to_latex m s include_feats = Some res \<longrightarrow>
        (\<exists>blocks. list_all2 (\<lambda>root b. token2latex m s root include_feats = Some b)
                    (get_children_of s 0) blocks
           \<and> res = replace_chr CHR ''_'' ''-''
                     (latex_open
                      @ (if length (get_children_of s 0) > 1
                         then ''[ '' @ concat blocks @ ''] '' else concat blocks)
                      @ latex_close)))
   \<and> (convert_to_graphviz m s include_feats = Some res' \<longrightarrow>
        (\<exists>blocks. list_all2 (\<lambda>root b. token2graphviz m s root include_feats = Some b)
                    (get_children_of s 0) blocks
           \<and> res' = ''digraph tree {'' @ [NEWLINE] @ concat blocks @ ''}''))"
  by (intro conjI impI)
     (rule get_children_of_positions, erule token2latex_Suc, erule token2graphviz_Suc,
      erule convert_to_latex_Some, erule convert_to_graphviz_Some)

theorem children_in_appearance_order_witness:
  "get_children_of ex_petit 3 = [tokens ex_petit ! 0, tokens ex_petit ! 1]
   \<and> (\<exists>out blocks. token2latex 2 ex_petit (tokens ex_petit ! 2) False = Some out
         \<and> list_all2 (\<lambda>c b. token2latex 1 ex_petit c False = Some b)
              [tokens ex_petit ! 0, tokens ex_petit ! 1] blocks)
   \<and> (\<exists>out blocks. token2graphviz 2 ex_petit (tokens ex_petit ! 2) False = Some out
         \<and> list_all2 (\<lambda>c b. token2graphviz 1 ex_petit c False = Some b)
              [tokens ex_petit ! 0, tokens ex_petit ! 1] blocks)
   \<and> (\<exists>res blocks. convert_to_latex 2 ex_petit False = Some res
         \<and> list_all2 (\<lambda>c b. token2latex 2 ex_petit c False = Some b)
              [tokens ex_petit ! 2] blocks)
   \<and> (\<exists>res blocks. convert_to_graphviz 2 ex_petit False = Some res
         \<and> list_all2 (\<lambda>c b. token2graphviz 2 ex_petit c False = Some b)
              [tokens ex_petit ! 2] blocks)"
proof -
  have i3: "index (tokens ex_petit ! 2) = 3"
    by (simp add: ex_petit_def Token_def)
  have c3: "get_children_of ex_petit 3 = [tokens ex_petit ! 0, tokens ex_petit ! 1]"
    by (simp add: ex_petit_def Token_def get_children_of_def)
  have c0: "get_children_of ex_petit 0 = [tokens ex_petit ! 2]"
    by (simp add: ex_petit_def Token_def get_children_of_def)
  note inst = children_in_appearance_order [of ex_petit 3 1 "tokens ex_petit ! 2" False _ _ 2,
      unfolded Suc_1 i3 c3 c0]
  show ?thesis
    using inst ex_petit_token2latex ex_petit_token2graphviz ex_petit_latex ex_petit_graphviz
    unfolding c3 by blast
qed

section \<open>The fields as the renderers escape them\<close>

lemma sublist_single: "sublist [x] ys \<longleftrightarrow> x \<in> set ys"
  by (simp add: sublist_def in_set_conv_decomp)

lemma convert_to_latex_no_underscore:
  "convert_to_latex n s include_feats = Some out \<Longrightarrow> CHR ''_'' \<notin> set out"
  by (auto simp: convert_to_latex_def replace_chr_absent split: option.splits)

lemma quot_append: "quot (a @ b) = quot a @ quot b"
  by (simp add: quot_def replace_chr_append)

lemma quot_backslash_n: "quot ([BACKSLASH] @ ''n'' @ x) = [BACKSLASH] @ ''n'' @ quot x"
  by (simp add: quot_def replace_chr_Cons BACKSLASH_def DQUOTE_def)

lemma hyphenated_token2latex:
  assumes "token2latex (Suc n) s t include_feats = Some out"
  shows "\<exists>blocks. list_all2 (\<lambda>c b. token2latex n s c include_feats = Some b)
                 (get_children_of s (index t)) blocks
        \<and> hyphenated out =
            ''[.{'' @ hyphenated (deplabel t) @ [BACKSLASH, BACKSLASH] @ hyphenated (form t)
            @ '' ('' @ hyphenated (pos t) @ '')''
            @ (if include_feats \<and> feats t \<noteq> []
               then [BACKSLASH, BACKSLASH] @ '' {'' @ [BACKSLASH] @ ''tiny ''
                    @ hyphenated (feats t) @ ''}''
               else [])
            @ ''} '' @ concat (map hyphenated blocks) @ '' ]''"
proof -
  from token2latex_Suc [OF assms] obtain blocks where
    b: "list_all2 (\<lambda>c b. token2latex n s c include_feats = Some b)
          (get_children_of s (index t)) blocks"
    and o: "out = ''[.{'' @ deplabel t @ [BACKSLASH, BACKSLASH] @ form t @ '' ('' @ pos t @ '')''
             @ (if include_feats \<and> feats t \<noteq> []
                then [BACKSLASH, BACKSLASH] @ '' {'' @ [BACKSLASH] @ ''tiny '' @ feats t @ ''}''
                else [])
             @ ''} '' @ concat blocks @ '' ]''"
    by blast
  show ?thesis
    by (rule exI [of _ blocks])
       (simp add: b o replace_chr_append replace_chr_Cons replace_chr_Nil replace_chr_concat
          BACKSLASH_def)
qed

lemma hyphenated_convert_to_latex:
  assumes "convert_to_latex n s include_feats = Some out"
  shows "\<exists>blocks. list_all2 (\<lambda>root b. token2latex n s root include_feats = Some b)
                 (get_children_of s 0) blocks
        \<and> out = latex_open
                 @ (if length (get_children_of s 0) > 1
                    then ''[ '' @ concat (map hyphenated blocks) @ ''] ''
                    else concat (map hyphenated blocks))
                 @ latex_close"
proof -
  from convert_to_latex_Some [OF assms] obtain blocks where
    b: "list_all2 (\<lambda>root b. token2latex n s root include_feats = Some b)
          (get_children_of s 0) blocks"
    and o: "out = hyphenated
                  (latex_open
                   @ (if length (get_children_of s 0) > 1 then ''[ '' @ concat blocks @ ''] ''
                      else concat blocks)
                   @ latex_close)"
    by blast
  show ?thesis
    by (rule exI [of _ blocks])
       (simp add: b o replace_chr_append replace_chr_Cons replace_chr_Nil replace_chr_concat
          us_latex_open us_latex_close)
qed

lemma graphviz_feats_escaped:
  assumes "token2graphviz (Suc n) s t include_feats = Some out"
  shows "\<exists>blocks. list_all2 (\<lambda>c b. token2graphviz n s c include_feats = Some b)
                 (get_children_of s (index t)) blocks
        \<and> out = ''n'' @ fmt_d (index t) @ '' [label='' @ [DQUOTE]
             @ quot (form t) @ [BACKSLASH] @ ''n'' @ quot (pos t)
             @ '' ('' @ quot (deplabel t) @ '')''
             @ (if include_feats \<and> feats t \<noteq> [] then [BACKSLASH] @ ''n'' @ quot (feats t)
                else [])
             @ [DQUOTE] @ ''];'' @ [NEWLINE]
             @ (if get_children_of s (index t) \<noteq> []
                then ''n'' @ fmt_d (index t) @ '' -> {''
                       @ join '' '' (map (\<lambda>c. ''n'' @ fmt_d (index c))
                                      (get_children_of s (index t)))
                       @ ''};'' @ [NEWLINE]
                else [])
             @ concat blocks"
proof -
  have q: "quot (if include_feats \<and> feats t \<noteq> [] then [BACKSLASH] @ ''n'' @ feats t else [])
         = (if include_feats \<and> feats t \<noteq> [] then [BACKSLASH] @ ''n'' @ quot (feats t) else [])"
    using quot_backslash_n [of "feats t"] by (simp add: quot_def replace_chr_Nil)
  from token2graphviz_Suc [OF assms] show ?thesis
    unfolding q .
qed

lemma ex_chat_token2latex: "token2latex 2 ex_sentence ex_chat True \<noteq> None"
  by code_simp

lemma ex_chat_token2graphviz_feats: "token2graphviz 2 ex_sentence ex_chat True \<noteq> None"
  by code_simp

section \<open>The part-of-speech column\<close>

lemma split_str_not_Nil: "split_str sep s \<noteq> []"
  by (induction s) (auto split: list.splits)

lemma item_update_other: "k \<noteq> j \<Longrightarrow> item (xs[j := x]) k = item xs k"
  by (simp add: item_def)

lemma make_token_Inr:
  assumes "make_token E split = Inr tok"
  shows "8 \<le> length split \<and> pos tok = split ! 3"
  using assms
  by (auto simp: make_token_def bind_err_def item_def to_int_def Token_def
           split: if_splits option.splits sum.splits)

lemma make_token_ignores_fifth: "make_token E (split[4 := x]) = make_token E split"
  by (simp add: make_token_def item_update_other)

lemma read_loop_one_line:
  assumes "read_loop E idi [line] toks sents = Inr (toks', sents')"
    and "strip line \<noteq> []"
    and "\<not> (idi \<and> CHR ''-'' \<in> set (split_str TAB (strip line) ! 0))"
  shows "\<exists>tok. make_token E (split_str TAB (strip line)) = Inr tok
           \<and> toks' = toks @ [tok] \<and> sents' = sents"
proof -
  have "item (split_str TAB (strip line)) 0 = Inr (split_str TAB (strip line) ! 0)"
    using split_str_not_Nil [of TAB "strip line"] by (simp add: item_def)
  with assms show ?thesis
    by (auto simp: Let_def split: sum.splits)
qed

lemma ex_read_first_line: "read_loop ex_env False [hd ex_lines] [] [] = Inr ([ex_le], [])"
  by code_simp

lemma ex_first_line_columns:
  "split_str TAB (strip (hd ex_lines)) =
     [''1'', ''Le'', ''le'', ''DET'', ''DT'', ''_'', ''2'', ''det'', ''_'', ''_'']"
  by code_simp

text \<open>
  C1, as stated, fails: the first line of the example file has \<^verbatim>\<open>DET\<close> in its 4th column
  and \<^verbatim>\<open>DT\<close> in its 5th, and the token read from it has the part of speech \<^verbatim>\<open>DET\<close>.
\<close>

theorem pos_is_fine_column_counterexample:
  "read_loop ex_env False [hd ex_lines] [] [] = Inr ([ex_le], [])
   \<and> split_str TAB (strip (hd ex_lines)) ! 4 = ''DT''
   \<and> split_str TAB (strip (hd ex_lines)) ! 3 = ''DET''
   \<and> pos ex_le = ''DET''
   \<and> pos ex_le \<noteq> split_str TAB (strip (hd ex_lines)) ! 4"
proof -
  have "pos ex_le = ''DET''"
    by (simp add: ex_defs)
  then show ?thesis
    by (simp add: ex_read_first_line ex_first_line_columns del: read_loop.simps)
qed

text \<open>
  C1, amended. For every non-blank input line parsed into a token, the token's part of
  speech is taken from the coarse part-of-speech column (the 4th, \<^verbatim>\<open>split[3]\<close>) and the
  fine part-of-speech column (the 5th) is ignored: changing it changes nothing. The
  part of speech that both renderers emit is that field of the token, as each renderer
  escapes it.
\<close>

theorem pos_is_coarse_column:
  "(make_token E split = Inr tok \<longrightarrow> 8 \<le> length split \<and> pos tok = split ! 3)
   \<and> make_token E (split[4 := x]) = make_token E split
   \<and> (read_loop E idi [line] toks sents = Inr (toks', sents')
        \<and> strip line \<noteq> []
        \<and> \<not> (idi \<and> CHR ''-'' \<in> set (split_str TAB (strip line) ! 0)) \<longrightarrow>
        (\<exists>tok'. toks' = toks @ [tok'] \<and> sents' = sents
           \<and> pos tok' = split_str TAB (strip line) ! 3))
   \<and> (token2latex (Suc n) s t include_feats = Some out \<longrightarrow>
        (\<exists>rest. hyphenated out =
           ''[.{'' @ hyphenated (deplabel t) @ [BACKSLASH, BACKSLASH] @ hyphenated (form t)
           @ '' ('' @ hyphenated (pos t) @ '')'' @ rest))
   \<and> (token2graphviz (Suc n) s t include_feats = Some out' \<longrightarrow>
        (\<exists>rest. out' =
           ''n'' @ fmt_d (index t) @ '' [label='' @ [DQUOTE]
           @ quot (form t) @ [BACKSLASH] @ ''n'' @ quot (pos t)
           @ '' ('' @ quot (deplabel t) @ '')'' @ rest))"
proof (intro conjI impI)
  assume "make_token E split = Inr tok"
  then show "8 \<le> length split" "pos tok = split ! 3"
    by (simp_all add: make_token_Inr)
next
  show "make_token E (split[4 := x]) = make_token E split"
    by (rule make_token_ignores_fifth)
next
  assume "read_loop E idi [line] toks sents = Inr (toks', sents')
        \<and> strip line \<noteq> []
        \<and> \<not> (idi \<and> CHR ''-'' \<in> set (split_str TAB (strip line) ! 0))"
  then obtain tok' where "make_token E (split_str TAB (strip line)) = Inr tok'"
    "toks' = toks @ [tok']" "sents' = sents"
    using read_loop_one_line [of E idi line toks sents toks' sents'] by blast
  then show "\<exists>tok'. toks' = toks @ [tok'] \<and> sents' = sents
           \<and> pos tok' = split_str TAB (strip line) ! 3"
    using make_token_Inr by blast
next
  assume "token2latex (Suc n) s t include_feats = Some out"
  from hyphenated_token2latex [OF this]
  show "\<exists>rest. hyphenated out =
           ''[.{'' @ hyphenated (deplabel t) @ [BACKSLASH, BACKSLASH] @ hyphenated (form t)
           @ '' ('' @ hyphenated (pos t) @ '')'' @ rest"
    by auto
next
  assume "token2graphviz (Suc n) s t include_feats = Some out'"
  from token2graphviz_Suc [OF this]
  show "\<exists>rest. out' =
           ''n'' @ fmt_d (index t) @ '' [label='' @ [DQUOTE]
           @ quot (form t) @ [BACKSLASH] @ ''n'' @ quot (pos t)
           @ '' ('' @ quot (deplabel t) @ '')'' @ rest"
    by auto
qed

theorem pos_is_coarse_column_witness:
  "\<exists>tok out out'. make_token ex_env (split_str TAB (strip (hd ex_lines))) = Inr tok
     \<and> pos tok = ''DET''
     \<and> read_loop ex_env False [hd ex_lines] [] [] = Inr ([tok], [])
     \<and> token2latex 2 ex_sentence ex_chat True = Some out
     \<and> token2graphviz 2 ex_sentence ex_chat True = Some out'
     \<and> (\<exists>rest. out' =
           ''n'' @ fmt_d (index ex_chat) @ '' [label='' @ [DQUOTE]
           @ quot (form ex_chat) @ [BACKSLASH] @ ''n'' @ quot (pos ex_chat)
           @ '' ('' @ quot (deplabel ex_chat) @ '')'' @ rest)"
proof -
  have m: "make_token ex_env (split_str TAB (strip (hd ex_lines))) = Inr ex_le"
    by code_simp
  have nb: "strip (hd ex_lines) \<noteq> []"
    by code_simp
  obtain out where o: "token2latex 2 ex_sentence ex_chat True = Some out"
    using ex_chat_token2latex by blast
  obtain out' where o': "token2graphviz 2 ex_sentence ex_chat True = Some out'"
    using ex_chat_token2graphviz_feats by blast
  note inst = pos_is_coarse_column [of ex_env "split_str TAB (strip (hd ex_lines))" ex_le _
      False "hd ex_lines" "[]" "[]" "[ex_le]" "[]" 1 ex_sentence ex_chat True out out',
      unfolded Suc_1]
  from inst m have "pos ex_le = ''DET''"
    by (simp add: ex_first_line_columns)
  moreover from inst ex_read_first_line nb have "\<exists>tok'. [ex_le] = [] @ [tok']"
    by blast
  moreover from inst o' have "\<exists>rest. out' =
           ''n'' @ fmt_d (index ex_chat) @ '' [label='' @ [DQUOTE]
           @ quot (form ex_chat) @ [BACKSLASH] @ ''n'' @ quot (pos ex_chat)
           @ '' ('' @ quot (deplabel ex_chat) @ '')'' @ rest"
    by blast
  ultimately show ?thesis
    using m o o' ex_read_first_line by blast
qed

section \<open>Compilation without an output file\<close>

text \<open>
  C9. If compilation is requested and no output path is given, the program fails with a
  configuration error while it handles its arguments: \<^verbatim>\<open>parse_args\<close> raises, and
  \<^verbatim>\<open>main\<close> ends with that exception before any input is read or parsed and with no
  other effect (its trace of effects is empty).
\<close>

theorem compile_needs_output_file:
  assumes "arg_compile parsed" and "arg_output_file parsed = []"
  shows "parse_args parsed =
           Inl (RuntimeError ''you need to specify an output file when using the -c switch'')
       \<and> main E n parsed =
           ([], Raised (RuntimeError
                  ''you need to specify an output file when using the -c switch''))"
proof -
  have "parse_args parsed =
           Inl (RuntimeError ''you need to specify an output file when using the -c switch'')"
    using assms by (simp add: parse_args_def set_mode_def Let_def)
  then show ?thesis by (simp add: main_def)
qed

theorem compile_needs_output_file_witness:
  "arg_compile ex_args \<and> arg_output_file ex_args = []
   \<and> open_read ex_env (arg_input_file ex_args) \<noteq> None
   \<and> main ex_env 2 ex_args =
        ([], Raised (RuntimeError
               ''you need to specify an output file when using the -c switch''))"
proof -
  have a: "arg_compile ex_args" and b: "arg_output_file ex_args = []"
    by (simp_all add: ex_args_def)
  have "open_read ex_env (arg_input_file ex_args) \<noteq> None"
    by (simp add: ex_args_def ex_env_def)
  with a b compile_needs_output_file [OF a b, of ex_env 2] show ?thesis by simp
qed

section \<open>The files of the graphviz output\<close>



















section \<open>Termination of the renderers\<close>

text \<open>
  With unique indices, none of them 0, a token has one depth at most, so the depth of the
  recursion is below the number of tokens.
\<close>

lemma level_subset: "level s d \<subseteq> set (tokens s)"
  by (cases d) auto

lemma level_nonempty_below: "level s d \<noteq> {} \<Longrightarrow> k \<le> d \<Longrightarrow> level s k \<noteq> {}"
proof (induction d)
  case 0
  then show ?case by simp
next
  case (Suc d)
  from Suc.prems(1) have "level s d \<noteq> {}" by auto
  with Suc show ?case by (cases "k = Suc d") auto
qed

lemma level_disjoint_less:
  assumes u: "distinct (map index (tokens s))" and z: "\<forall>t \<in> set (tokens s). index t \<noteq> 0"
  shows "t \<in> level s d \<Longrightarrow> t \<in> level s (d + Suc k) \<Longrightarrow> False"
proof (induction d arbitrary: t)
  case 0
  then obtain p where "p \<in> set (tokens s)" "head t = index p" "head t = 0"
    using level_subset [of s k] by auto
  with z show ?case by auto
next
  case (Suc d)
  from Suc.prems(1) obtain p where p: "p \<in> level s d" "head t = index p" by auto
  from Suc.prems(2) obtain p' where p': "p' \<in> level s (d + Suc k)" "head t = index p'" by auto
  from p p' level_subset have "p \<in> set (tokens s)" "p' \<in> set (tokens s)" "index p = index p'"
    by auto
  with u have "p = p'"
    by (meson distinct_map inj_onD)
  with Suc.IH [of p] p p' show ?case by simp
qed

lemma level_disjoint:
  assumes "distinct (map index (tokens s))" and "\<forall>t \<in> set (tokens s). index t \<noteq> 0"
    and "t \<in> level s d" and "t \<in> level s d'"
  shows "d = d'"
proof (rule ccontr)
  assume "d \<noteq> d'"
  then consider k where "d' = d + Suc k" | k where "d = d' + Suc k"
    by (metis add_Suc_right less_imp_Suc_add linorder_neqE_nat)
  then show False
    using level_disjoint_less [OF assms(1,2)] assms(3,4) by cases auto
qed

lemma level_bound:
  assumes u: "distinct (map index (tokens s))" and z: "\<forall>t \<in> set (tokens s). index t \<noteq> 0"
    and ne: "level s d \<noteq> {}"
  shows "d < length (tokens s)"
proof -
  have "\<forall>k \<in> {..d}. \<exists>t. t \<in> level s k"
    using level_nonempty_below [OF ne] by auto
  then obtain f where f: "\<forall>k \<in> {..d}. f k \<in> level s k"
    by (rule bchoice [THEN exE]) blast
  have "inj_on f {..d}"
  proof (rule inj_onI)
    fix a b assume ab: "a \<in> {..d}" "b \<in> {..d}" and eq: "f a = f b"
    from f ab have "f a \<in> level s a" "f b \<in> level s b" by blast+
    with eq show "a = b" by (intro level_disjoint [OF u z, of "f a"]) simp_all
  qed
  moreover have "f ` {..d} \<subseteq> set (tokens s)"
    using f level_subset by blast
  ultimately have "card {..d} \<le> card (set (tokens s))"
    by (intro card_inj_on_le) auto
  also have "\<dots> \<le> length (tokens s)" by (rule card_length)
  finally show ?thesis by simp
qed

lemma children_level:
  "t \<in> level s d \<Longrightarrow> c \<in> set (get_children_of s (index t)) \<Longrightarrow> c \<in> level s (Suc d)"
  by (auto simp: get_children_of_def)

lemma bounded_depth_returns:
  assumes u: "distinct (map index (tokens s))" and z: "\<forall>t \<in> set (tokens s). index t \<noteq> 0"
    and step: "\<And>f t. (\<forall>c \<in> set (get_children_of s (index t)). r f c \<noteq> None)
                 \<Longrightarrow> r (Suc f) t \<noteq> (None :: string option)"
  shows "t \<in> level s d \<Longrightarrow> length (tokens s) \<le> f + d \<Longrightarrow> r f t \<noteq> None"
proof (induction f arbitrary: t d)
  case 0
  from 0(1) have "level s d \<noteq> {}" by auto
  from level_bound [OF u z this] 0(2) show ?case by simp
next
  case (Suc f)
  have "r f c \<noteq> None" if "c \<in> set (get_children_of s (index t))" for c
    using Suc.IH [OF children_level [OF Suc.prems(1) that]] Suc.prems(2) by simp
  then show ?case by (intro step) blast
qed

lemma append_rendered_not_None:
  "(\<forall>c \<in> set cs. r c \<noteq> None) \<Longrightarrow> append_rendered r cs res \<noteq> None"
  by (induction cs arbitrary: res) auto

lemma token2latex_loop:
  "\<exists>res. token2latex (Suc f) s t include_feats =
     (case append_rendered (\<lambda>child. token2latex f s child include_feats)
             (get_children_of s (index t)) res of
        None \<Rightarrow> None
      | Some res' \<Rightarrow> Some (res' @ '' ]''))"
  unfolding token2latex.simps Let_def by (rule exI, rule refl)

lemma token2latex_step:
  assumes "\<forall>c \<in> set (get_children_of s (index t)). token2latex f s c include_feats \<noteq> None"
  shows "token2latex (Suc f) s t include_feats \<noteq> None"
proof -
  from token2latex_loop [of f s t include_feats] obtain res where
    "token2latex (Suc f) s t include_feats =
       (case append_rendered (\<lambda>child. token2latex f s child include_feats)
               (get_children_of s (index t)) res of
          None \<Rightarrow> None
        | Some res' \<Rightarrow> Some (res' @ '' ]''))" ..
  with append_rendered_not_None [OF assms, of res] show ?thesis
    by (simp split: option.splits)
qed

lemma token2graphviz_loop:
  "\<exists>res. token2graphviz (Suc f) s t include_feats =
     append_rendered (\<lambda>child. token2graphviz f s child include_feats)
       (get_children_of s (index t)) res"
  unfolding token2graphviz.simps Let_def by (rule exI, rule refl)

lemma token2graphviz_step:
  assumes "\<forall>c \<in> set (get_children_of s (index t)). token2graphviz f s c include_feats \<noteq> None"
  shows "token2graphviz (Suc f) s t include_feats \<noteq> None"
proof -
  from token2graphviz_loop [of f s t include_feats] obtain res where
    "token2graphviz (Suc f) s t include_feats =
       append_rendered (\<lambda>child. token2graphviz f s child include_feats)
         (get_children_of s (index t)) res" ..
  with append_rendered_not_None [OF assms, of res] show ?thesis by simp
qed

lemma roots_level: "c \<in> set (get_children_of s 0) \<Longrightarrow> c \<in> level s 0"
  by (simp add: get_children_of_def)

lemma renderers_return:
  assumes u: "distinct (map index (tokens s))" and z: "\<forall>t \<in> set (tokens s). index t \<noteq> 0"
  shows "convert_to_latex (length (tokens s)) s include_feats \<noteq> None"
    and "convert_to_graphviz (length (tokens s)) s include_feats \<noteq> None"
proof -
  have l: "\<forall>c \<in> set (get_children_of s 0).
             token2latex (length (tokens s)) s c include_feats \<noteq> None"
    using bounded_depth_returns [OF u z, of "\<lambda>f t. token2latex f s t include_feats",
      OF token2latex_step roots_level]
    by simp
  have g: "\<forall>c \<in> set (get_children_of s 0).
             token2graphviz (length (tokens s)) s c include_feats \<noteq> None"
    using bounded_depth_returns [OF u z, of "\<lambda>f t. token2graphviz f s t include_feats",
      OF token2graphviz_step roots_level]
    by simp
  have "\<exists>res. assemble_latex (length (tokens s)) s include_feats =
          (case append_rendered (\<lambda>root. token2latex (length (tokens s)) s root include_feats)
                  (get_children_of s 0) res of
             None \<Rightarrow> None
           | Some res \<Rightarrow>
               Some ((if length (get_children_of s 0) > 1 then res @ ''] '' else res)
                     @ latex_close))"
    unfolding assemble_latex_def Let_def by (rule exI, rule refl)
  then obtain res where
    "assemble_latex (length (tokens s)) s include_feats =
          (case append_rendered (\<lambda>root. token2latex (length (tokens s)) s root include_feats)
                  (get_children_of s 0) res of
             None \<Rightarrow> None
           | Some res \<Rightarrow>
               Some ((if length (get_children_of s 0) > 1 then res @ ''] '' else res)
                     @ latex_close))" ..
  with append_rendered_not_None [OF l, of res]
  show "convert_to_latex (length (tokens s)) s include_feats \<noteq> None"
    by (simp add: convert_to_latex_def split: option.splits)
  show "convert_to_graphviz (length (tokens s)) s include_feats \<noteq> None"
    using append_rendered_not_None [OF g, of "''digraph tree {'' @ [NEWLINE]"]
    by (simp add: convert_to_graphviz_def split: option.split)
qed

text \<open>
  A result does not depend on the depth that the stack admits, once that depth is large
  enough.
\<close>

lemma append_rendered_mono:
  "(\<And>c x. r c = Some x \<Longrightarrow> r' c = Some x) \<Longrightarrow> append_rendered r cs res = Some y
   \<Longrightarrow> append_rendered r' cs res = Some y"
proof (induction cs arbitrary: res)
  case Nil
  then show ?case by simp
next
  case (Cons c cs)
  from Cons.prems(2) obtain x where x: "r c = Some x"
    and rest: "append_rendered r cs (res @ x) = Some y"
    by (auto split: option.splits)
  from Cons.prems(1) [OF x] Cons.IH [OF Cons.prems(1) rest] show ?case by simp
qed

lemma token2latex_loop_all:
  "\<exists>res. \<forall>f. token2latex (Suc f) s t include_feats =
     (case append_rendered (\<lambda>child. token2latex f s child include_feats)
             (get_children_of s (index t)) res of
        None \<Rightarrow> None
      | Some res' \<Rightarrow> Some (res' @ '' ]''))"
  unfolding token2latex.simps Let_def by (rule exI, rule allI, rule refl)

lemma token2graphviz_loop_all:
  "\<exists>res. \<forall>f. token2graphviz (Suc f) s t include_feats =
     append_rendered (\<lambda>child. token2graphviz f s child include_feats)
       (get_children_of s (index t)) res"
  unfolding token2graphviz.simps Let_def by (rule exI, rule allI, rule refl)

lemma token2latex_Suc_mono:
  "token2latex n s t include_feats = Some out \<Longrightarrow> token2latex (Suc n) s t include_feats = Some out"
proof (induction n arbitrary: t out)
  case 0
  then show ?case by simp
next
  case (Suc n)
  from token2latex_loop_all [of s t include_feats] obtain res where
    eq: "\<And>f. token2latex (Suc f) s t include_feats =
     (case append_rendered (\<lambda>child. token2latex f s child include_feats)
             (get_children_of s (index t)) res of
        None \<Rightarrow> None
      | Some res' \<Rightarrow> Some (res' @ '' ]''))"
    by blast
  from Suc.prems obtain y where
    y: "append_rendered (\<lambda>child. token2latex n s child include_feats)
          (get_children_of s (index t)) res = Some y"
    and out: "out = y @ '' ]''"
    unfolding eq [of n] by (auto split: option.splits)
  have "append_rendered (\<lambda>child. token2latex (Suc n) s child include_feats)
          (get_children_of s (index t)) res = Some y"
    by (rule append_rendered_mono [OF _ y]) (rule Suc.IH)
  then show ?case unfolding eq [of "Suc n"] by (simp add: out)
qed

lemma token2graphviz_Suc_mono:
  "token2graphviz n s t include_feats = Some out
   \<Longrightarrow> token2graphviz (Suc n) s t include_feats = Some out"
proof (induction n arbitrary: t out)
  case 0
  then show ?case by simp
next
  case (Suc n)
  from token2graphviz_loop_all [of s t include_feats] obtain res where
    eq: "\<And>f. token2graphviz (Suc f) s t include_feats =
       append_rendered (\<lambda>child. token2graphviz f s child include_feats)
         (get_children_of s (index t)) res"
    by blast
  from Suc.prems have
    y: "append_rendered (\<lambda>child. token2graphviz n s child include_feats)
          (get_children_of s (index t)) res = Some out"
    unfolding eq [of n] .
  have "append_rendered (\<lambda>child. token2graphviz (Suc n) s child include_feats)
          (get_children_of s (index t)) res = Some out"
    by (rule append_rendered_mono [OF _ y]) (rule Suc.IH)
  then show ?case unfolding eq [of "Suc n"] .
qed

lemma token2latex_mono:
  "token2latex n s t include_feats = Some out \<Longrightarrow> token2latex (n + k) s t include_feats = Some out"
  by (induction k) (simp_all add: token2latex_Suc_mono del: token2latex.simps)

lemma token2graphviz_mono:
  "token2graphviz n s t include_feats = Some out
   \<Longrightarrow> token2graphviz (n + k) s t include_feats = Some out"
  by (induction k) (simp_all add: token2graphviz_Suc_mono del: token2graphviz.simps)

lemma convert_to_latex_mono:
  assumes "convert_to_latex n s include_feats = Some out"
  shows "convert_to_latex (n + k) s include_feats = Some out"
proof -
  have "\<exists>res. \<forall>m. assemble_latex m s include_feats =
          (case append_rendered (\<lambda>root. token2latex m s root include_feats)
                  (get_children_of s 0) res of
             None \<Rightarrow> None
           | Some res \<Rightarrow>
               Some ((if length (get_children_of s 0) > 1 then res @ ''] '' else res)
                     @ latex_close))"
    unfolding assemble_latex_def Let_def by (rule exI, rule allI, rule refl)
  then obtain res where
    eq: "\<And>m. assemble_latex m s include_feats =
          (case append_rendered (\<lambda>root. token2latex m s root include_feats)
                  (get_children_of s 0) res of
             None \<Rightarrow> None
           | Some res \<Rightarrow>
               Some ((if length (get_children_of s 0) > 1 then res @ ''] '' else res)
                     @ latex_close))"
    by blast
  from assms obtain y where
    y: "append_rendered (\<lambda>root. token2latex n s root include_feats)
          (get_children_of s 0) res = Some y"
    and out: "out = replace_chr CHR ''_'' ''-''
        ((if length (get_children_of s 0) > 1 then y @ ''] '' else y) @ latex_close)"
    unfolding convert_to_latex_def eq [of n] by (auto split: option.splits)
  have "append_rendered (\<lambda>root. token2latex (n + k) s root include_feats)
          (get_children_of s 0) res = Some y"
    by (rule append_rendered_mono [OF _ y]) (rule token2latex_mono)
  then show ?thesis unfolding convert_to_latex_def eq [of "n + k"] by (simp add: out)
qed

lemma convert_to_graphviz_mono:
  assumes "convert_to_graphviz n s include_feats = Some out"
  shows "convert_to_graphviz (n + k) s include_feats = Some out"
proof -
  from assms obtain y where
    y: "append_rendered (\<lambda>root. token2graphviz n s root include_feats)
          (get_children_of s 0) (''digraph tree {'' @ [NEWLINE]) = Some y"
    and out: "out = y @ ''}''"
    unfolding convert_to_graphviz_def by (auto split: option.splits)
  have "append_rendered (\<lambda>root. token2graphviz (n + k) s root include_feats)
          (get_children_of s 0) (''digraph tree {'' @ [NEWLINE]) = Some y"
    by (rule append_rendered_mono [OF _ y]) (rule token2graphviz_mono)
  then show ?thesis unfolding convert_to_graphviz_def by (simp add: out)
qed

text \<open>Under the head invariant, a token with index 0 closes a cycle.\<close>

lemma zero_index_cyclic:
  assumes inv: "head_invariant s" and zero: "\<exists>t \<in> set (tokens s). index t = 0"
  shows "\<not> acyclic (head_rel s)"
proof
  assume "acyclic (head_rel s)"
  moreover have "finite (head_rel s)" by (simp add: head_rel_def)
  ultimately have "wf ((head_rel s)\<inverse>)" by (simp add: finite_acyclic_wf_converse)
  moreover from zero have "Domain (head_rel s) \<noteq> {}" by (auto simp: head_rel_def)
  ultimately obtain z where z: "z \<in> Domain (head_rel s)"
    and min: "\<And>y. (y, z) \<in> (head_rel s)\<inverse> \<Longrightarrow> y \<notin> Domain (head_rel s)"
    by (metis ex_in_conv wfE_min)
  from z obtain t where t: "t \<in> set (tokens s)" "index t = z"
    by (auto simp: head_rel_def)
  have "head t \<in> Domain (head_rel s)"
  proof (cases "head t = 0")
    case True
    with zero show ?thesis by (force simp: head_rel_def)
  next
    case False
    with inv t(1) have "length (filter (\<lambda>u. u \<noteq> t \<and> index u = head t) (tokens s)) = 1"
      by (auto simp: head_invariant_def list_all_iff)
    then have "filter (\<lambda>u. u \<noteq> t \<and> index u = head t) (tokens s) \<noteq> []" by auto
    then obtain u where "u \<in> set (tokens s)" "index u = head t"
      by (auto simp: filter_empty_conv)
    then show ?thesis by (force simp: head_rel_def)
  qed
  moreover from t have "(head t, z) \<in> (head_rel s)\<inverse>" by (force simp: head_rel_def)
  ultimately show False using min by blast
qed

lemma ex_cycle_cyclic: "\<not> acyclic (head_rel ex_cycle)"
proof -
  have "(1, 2) \<in> head_rel ex_cycle" "(2, 1) \<in> head_rel ex_cycle"
    by (simp_all add: head_rel_def ex_cycle_def Token_def)
  then have "(1, 1) \<in> (head_rel ex_cycle)\<^sup>+" by (rule trancl_into_trancl [OF r_into_trancl])
  then show ?thesis by (auto simp: acyclic_def)
qed

lemma ex_sentence_acyclic: "acyclic (head_rel ex_sentence)"
proof -
  have "head_rel ex_sentence \<subseteq> measure (\<lambda>i. if i = 1 then 0 else if i = 2 then 1 else 2)"
    by (simp add: head_rel_def ex_defs)
  then show ?thesis by (intro wf_acyclic wf_subset [OF wf_measure])
qed

text \<open>
  A token with index 0 that is its own head is its own child: the renderers raise
  \<^verbatim>\<open>RecursionError\<close>, whatever depth the stack admits.
\<close>

lemma zero_index_root_never_returns:
  "convert_to_latex n ex_zero include_feats = None
   \<and> convert_to_graphviz n ex_zero include_feats = None"
proof -
  have c: "get_children_of ex_zero i = (if i = 0 then tokens ex_zero else [])" for i
    by (simp add: get_children_of_def ex_zero_def Token_def)
  have i: "index t = 0" if "t \<in> set (tokens ex_zero)" for t
    using that by (simp add: ex_zero_def Token_def)
  have t: "tokens ex_zero = [hd (tokens ex_zero)]"
    by (simp add: ex_zero_def)
  have l: "token2latex n ex_zero (hd (tokens ex_zero)) include_feats = None" for n
  proof (induction n)
    case 0
    show ?case by simp
  next
    case (Suc n)
    from token2latex_loop [of n ex_zero "hd (tokens ex_zero)" include_feats] obtain res where
      eq: "token2latex (Suc n) ex_zero (hd (tokens ex_zero)) include_feats =
       (case append_rendered (\<lambda>child. token2latex n ex_zero child include_feats)
               (get_children_of ex_zero (index (hd (tokens ex_zero)))) res of
          None \<Rightarrow> None
        | Some res' \<Rightarrow> Some (res' @ '' ]''))" ..
    have "index (hd (tokens ex_zero)) = 0" by (simp add: ex_zero_def Token_def)
    then have "get_children_of ex_zero (index (hd (tokens ex_zero))) = [hd (tokens ex_zero)]"
      using c [of 0] t by simp
    with Suc show ?case unfolding eq by simp
  qed
  have g: "token2graphviz n ex_zero (hd (tokens ex_zero)) include_feats = None" for n
  proof (induction n)
    case 0
    show ?case by simp
  next
    case (Suc n)
    from token2graphviz_loop [of n ex_zero "hd (tokens ex_zero)" include_feats] obtain res where
      eq: "token2graphviz (Suc n) ex_zero (hd (tokens ex_zero)) include_feats =
         append_rendered (\<lambda>child. token2graphviz n ex_zero child include_feats)
               (get_children_of ex_zero (index (hd (tokens ex_zero)))) res" ..
    have "index (hd (tokens ex_zero)) = 0" by (simp add: ex_zero_def Token_def)
    then have "get_children_of ex_zero (index (hd (tokens ex_zero))) = [hd (tokens ex_zero)]"
      using c [of 0] t by simp
    with Suc show ?case unfolding eq by simp
  qed
  have r: "get_children_of ex_zero 0 = [hd (tokens ex_zero)]"
    using c [of 0] t by simp
  show ?thesis
    by (simp add: convert_to_latex_def assemble_latex_def convert_to_graphviz_def r l g)
qed

text \<open>
  A renderer raises exactly when some token lies at the depth that the stack admits.
\<close>

lemma append_rendered_None_iff:
  "append_rendered r cs res = None \<longleftrightarrow> (\<exists>c \<in> set cs. r c = None)"
  by (induction cs arbitrary: res) (auto split: option.splits)

lemma token2latex_None_iff:
  "token2latex (Suc f) s t include_feats = None
   \<longleftrightarrow> (\<exists>c \<in> set (get_children_of s (index t)). token2latex f s c include_feats = None)"
proof -
  from token2latex_loop [of f s t include_feats] obtain res where
    eq: "token2latex (Suc f) s t include_feats =
       (case append_rendered (\<lambda>child. token2latex f s child include_feats)
               (get_children_of s (index t)) res of
          None \<Rightarrow> None
        | Some res' \<Rightarrow> Some (res' @ '' ]''))" ..
  have "token2latex (Suc f) s t include_feats = None
      \<longleftrightarrow> append_rendered (\<lambda>child. token2latex f s child include_feats)
            (get_children_of s (index t)) res = None"
    unfolding eq by (simp split: option.splits)
  then show ?thesis by (simp only: append_rendered_None_iff)
qed

lemma token2graphviz_None_iff:
  "token2graphviz (Suc f) s t include_feats = None
   \<longleftrightarrow> (\<exists>c \<in> set (get_children_of s (index t)). token2graphviz f s c include_feats = None)"
proof -
  from token2graphviz_loop [of f s t include_feats] obtain res where
    eq: "token2graphviz (Suc f) s t include_feats =
       append_rendered (\<lambda>child. token2graphviz f s child include_feats)
         (get_children_of s (index t)) res" ..
  show ?thesis unfolding eq by (simp only: append_rendered_None_iff)
qed

lemma raises_iff_level:
  assumes zero: "\<And>t. r 0 t = (None :: string option)"
    and step: "\<And>f t. r (Suc f) t = None
                 \<longleftrightarrow> (\<exists>c \<in> set (get_children_of s (index t)). r f c = None)"
  shows "(\<exists>t \<in> level s 0. r n t = None) \<longleftrightarrow> level s n \<noteq> {}"
proof
  assume "level s n \<noteq> {}"
  then obtain u where u: "u \<in> level s n" by blast
  have "\<exists>p \<in> level s (n - k). r k p = None" if "k \<le> n" for k
    using that
  proof (induction k)
    case 0
    with u zero show ?case by auto
  next
    case (Suc k)
    then obtain p where p: "p \<in> level s (n - k)" "r k p = None" by auto
    from Suc.prems have "n - k = Suc (n - Suc k)" by simp
    with p(1) obtain q where q: "q \<in> level s (n - Suc k)" "head p = index q"
      and "p \<in> set (tokens s)"
      by auto
    then have "p \<in> set (get_children_of s (index q))"
      by (simp add: get_children_of_def)
    with p(2) have "r (Suc k) q = None" unfolding step by blast
    with q(1) show ?case by blast
  qed
  from this [of n] show "\<exists>t \<in> level s 0. r n t = None" by simp
next
  assume "\<exists>t \<in> level s 0. r n t = None"
  then obtain t where t: "t \<in> level s 0" "r n t = None" by blast
  have "level s (d + f) \<noteq> {}" if "t \<in> level s d" "r f t = None" for t d f
    using that
  proof (induction f arbitrary: t d)
    case 0
    then show ?case by auto
  next
    case (Suc f)
    from Suc.prems(2) obtain c where c: "c \<in> set (get_children_of s (index t))" "r f c = None"
      unfolding step by blast
    from children_level [OF Suc.prems(1) c(1)] c(2) have "level s (Suc d + f) \<noteq> {}"
      by (rule Suc.IH)
    then show ?case by simp
  qed
  from this [OF t] show "level s n \<noteq> {}" by simp
qed

lemma roots_are_level_0: "set (get_children_of s 0) = level s 0"
  by (auto simp: get_children_of_def)

lemma convert_to_latex_None_iff:
  "convert_to_latex n s include_feats = None \<longleftrightarrow> level s n \<noteq> {}"
proof -
  have "\<exists>res. assemble_latex n s include_feats =
          (case append_rendered (\<lambda>root. token2latex n s root include_feats)
                  (get_children_of s 0) res of
             None \<Rightarrow> None
           | Some res \<Rightarrow>
               Some ((if length (get_children_of s 0) > 1 then res @ ''] '' else res)
                     @ latex_close))"
    unfolding assemble_latex_def Let_def by (rule exI, rule refl)
  then obtain res where
    eq: "assemble_latex n s include_feats =
          (case append_rendered (\<lambda>root. token2latex n s root include_feats)
                  (get_children_of s 0) res of
             None \<Rightarrow> None
           | Some res \<Rightarrow>
               Some ((if length (get_children_of s 0) > 1 then res @ ''] '' else res)
                     @ latex_close))" ..
  have "convert_to_latex n s include_feats = None
      \<longleftrightarrow> append_rendered (\<lambda>root. token2latex n s root include_feats)
            (get_children_of s 0) res = None"
    unfolding convert_to_latex_def eq by (simp split: option.splits)
  then have "convert_to_latex n s include_feats = None
      \<longleftrightarrow> (\<exists>t \<in> level s 0. token2latex n s t include_feats = None)"
    by (simp only: append_rendered_None_iff roots_are_level_0)
  also have "\<dots> \<longleftrightarrow> level s n \<noteq> {}"
    by (rule raises_iff_level [of "\<lambda>f t. token2latex f s t include_feats"])
       (simp, rule token2latex_None_iff)
  finally show ?thesis .
qed

lemma convert_to_graphviz_None_iff:
  "convert_to_graphviz n s include_feats = None \<longleftrightarrow> level s n \<noteq> {}"
proof -
  have "convert_to_graphviz n s include_feats = None
      \<longleftrightarrow> append_rendered (\<lambda>root. token2graphviz n s root include_feats)
            (get_children_of s 0) (''digraph tree {'' @ [NEWLINE]) = None"
    unfolding convert_to_graphviz_def by (simp split: option.splits)
  then have "convert_to_graphviz n s include_feats = None
      \<longleftrightarrow> (\<exists>t \<in> level s 0. token2graphviz n s t include_feats = None)"
    by (simp only: append_rendered_None_iff roots_are_level_0)
  also have "\<dots> \<longleftrightarrow> level s n \<noteq> {}"
    by (rule raises_iff_level [of "\<lambda>f t. token2graphviz f s t include_feats"])
       (simp, rule token2graphviz_None_iff)
  finally show ?thesis .
qed

lemma level_empty_above: "level s d = {} \<Longrightarrow> level s (d + k) = {}"
  using level_nonempty_below [of s "d + k" d] by auto

lemma ex_sentence_shallow_stack:
  "convert_to_latex 1 ex_sentence True = None \<and> convert_to_graphviz 1 ex_sentence True = None"
  by code_simp

text \<open>
  C2, as stated, fails: the sentence \<open>ex_cycle\<close> has unique indices, satisfies the head
  invariant and has a cycle of head pointers, and both renderers return on it. No token
  has head 0, so no token is rendered.
\<close>

theorem cyclic_rendering_returns_counterexample:
  "distinct (map index (tokens ex_cycle))
   \<and> head_invariant ex_cycle
   \<and> \<not> acyclic (head_rel ex_cycle)
   \<and> convert_to_latex 0 ex_cycle False = Some (latex_open @ latex_close)
   \<and> convert_to_latex (length (tokens ex_cycle)) ex_cycle False = Some (latex_open @ latex_close)
   \<and> convert_to_graphviz 0 ex_cycle False = Some (''digraph tree {'' @ [NEWLINE] @ ''}'')
   \<and> convert_to_graphviz (length (tokens ex_cycle)) ex_cycle False
       = Some (''digraph tree {'' @ [NEWLINE] @ ''}'')"
proof -
  have c: "get_children_of ex_cycle 0 = []"
    by (simp add: get_children_of_def ex_cycle_def Token_def)
  have "distinct (map index (tokens ex_cycle))" "head_invariant ex_cycle"
    by (simp_all add: ex_cycle_def Token_def head_invariant_def)
  moreover have "convert_to_latex n ex_cycle False = Some (latex_open @ latex_close)" for n
    by (simp add: convert_to_latex_def assemble_latex_def c replace_chr_append
          us_latex_open us_latex_close)
  moreover have "convert_to_graphviz n ex_cycle False
      = Some (''digraph tree {'' @ [NEWLINE] @ ''}'')" for n
    by (simp add: convert_to_graphviz_def c)
  ultimately show ?thesis using ex_cycle_cyclic by blast
qed

text \<open>
  C2, amended. Rendering by either renderer always ends: it returns, or it raises
  \<^verbatim>\<open>RecursionError\<close>, and it raises exactly when some token lies, in head pointers below
  the virtual root 0, at the depth that the call stack admits. For every sentence with
  unique token indices, each satisfying the head invariant, rendering returns if the
  head-pointer relation is acyclic and the stack admits a depth of the number of tokens.
  The converse does not hold: under the same condition on the stack, rendering returns
  for every sentence with unique indices none of which is 0, cyclic or not, since a cycle
  of head pointers is never reached from the virtual root 0. In both cases the result is
  the same for every depth from the number of tokens on.
\<close>

theorem rendering_returns:
  "(convert_to_latex n s include_feats = None \<longleftrightarrow> level s n \<noteq> {})
   \<and> (convert_to_graphviz n s include_feats = None \<longleftrightarrow> level s n \<noteq> {})
   \<and> (distinct (map index (tokens s))
        \<and> ((\<forall>t \<in> set (tokens s). index t \<noteq> 0) \<or> (head_invariant s \<and> acyclic (head_rel s)))
       \<longrightarrow> level s (length (tokens s)) = {}
         \<and> (\<exists>out. \<forall>m \<ge> length (tokens s). convert_to_latex m s include_feats = Some out)
         \<and> (\<exists>out. \<forall>m \<ge> length (tokens s). convert_to_graphviz m s include_feats = Some out))"
proof (intro conjI impI)
  show "convert_to_latex n s include_feats = None \<longleftrightarrow> level s n \<noteq> {}"
    by (rule convert_to_latex_None_iff)
  show "convert_to_graphviz n s include_feats = None \<longleftrightarrow> level s n \<noteq> {}"
    by (rule convert_to_graphviz_None_iff)
next
  assume a: "distinct (map index (tokens s))
        \<and> ((\<forall>t \<in> set (tokens s). index t \<noteq> 0) \<or> (head_invariant s \<and> acyclic (head_rel s)))"
  then have u: "distinct (map index (tokens s))" by simp
  have z: "\<forall>t \<in> set (tokens s). index t \<noteq> 0"
  proof (rule ccontr)
    assume n: "\<not> (\<forall>t \<in> set (tokens s). index t \<noteq> 0)"
    with a have "head_invariant s" "acyclic (head_rel s)" by simp_all
    moreover from n have "\<exists>t \<in> set (tokens s). index t = 0" by simp
    ultimately show False using zero_index_cyclic [of s] by simp
  qed
  show "level s (length (tokens s)) = {}"
    using level_bound [OF u z, of "length (tokens s)"] by blast
  from renderers_return [OF u z, of include_feats] obtain l g where
    l: "convert_to_latex (length (tokens s)) s include_feats = Some l"
    and g: "convert_to_graphviz (length (tokens s)) s include_feats = Some g"
    by blast
  have "convert_to_latex m s include_feats = Some l" if "length (tokens s) \<le> m" for m
    using convert_to_latex_mono [OF l, of "m - length (tokens s)"] that by simp
  then show "\<exists>out. \<forall>m \<ge> length (tokens s). convert_to_latex m s include_feats = Some out"
    by blast
  have "convert_to_graphviz m s include_feats = Some g" if "length (tokens s) \<le> m" for m
    using convert_to_graphviz_mono [OF g, of "m - length (tokens s)"] that by simp
  then show "\<exists>out. \<forall>m \<ge> length (tokens s). convert_to_graphviz m s include_feats = Some out"
    by blast
qed

theorem rendering_returns_witness:
  "(\<exists>out. \<forall>m \<ge> 2. convert_to_latex m ex_cycle True = Some out)
   \<and> (\<exists>out. \<forall>m \<ge> 2. convert_to_graphviz m ex_cycle True = Some out)
   \<and> \<not> acyclic (head_rel ex_cycle)
   \<and> (\<exists>out. \<forall>m \<ge> 2. convert_to_latex m ex_sentence True = Some out)
   \<and> (\<exists>out. \<forall>m \<ge> 2. convert_to_graphviz m ex_sentence True = Some out)
   \<and> head_invariant ex_sentence \<and> acyclic (head_rel ex_sentence)
   \<and> convert_to_latex 1 ex_sentence True = None \<and> level ex_sentence 1 \<noteq> {}"
proof -
  have d1: "distinct (map index (tokens ex_cycle))"
    and z1: "\<forall>t \<in> set (tokens ex_cycle). index t \<noteq> 0"
    and l1: "length (tokens ex_cycle) = 2"
    by (simp_all add: ex_cycle_def Token_def)
  have d2: "distinct (map index (tokens ex_sentence))"
    and h2: "head_invariant ex_sentence"
    and l2: "length (tokens ex_sentence) = 2"
    by (simp_all add: ex_defs head_invariant_def)
  note c = rendering_returns [of 0 ex_cycle True, THEN conjunct2, THEN conjunct2, rule_format,
      OF conjI [OF d1 disjI1 [OF z1]], unfolded l1]
  note e = rendering_returns [of 0 ex_sentence True, THEN conjunct2, THEN conjunct2, rule_format,
      OF conjI [OF d2 disjI2 [OF conjI [OF h2 ex_sentence_acyclic]]], unfolded l2]
  note r = rendering_returns [of 1 ex_sentence True, THEN conjunct1]
  from r ex_sentence_shallow_stack have lv: "level ex_sentence 1 \<noteq> {}" by simp
  show ?thesis
    by (intro conjI c [THEN conjunct2, THEN conjunct1] c [THEN conjunct2, THEN conjunct2]
          e [THEN conjunct2, THEN conjunct1] e [THEN conjunct2, THEN conjunct2]
          ex_cycle_cyclic h2 ex_sentence_acyclic lv
          ex_sentence_shallow_stack [THEN conjunct1])
qed

section \<open>The tokens that the renderers visit\<close>

text \<open>
  A rendering that returns is made of the blocks of the tokens visited, and within the
  depth that the stack admits the rendering returns.
\<close>

lemma list_all2_eq_map: "list_all2 (\<lambda>c b. b = g c) cs blocks \<Longrightarrow> blocks = map g cs"
  by (induction rule: list_all2_induct) simp_all

lemma concat_map_concat:
  "concat (map f (concat xss)) = concat (map (\<lambda>xs. concat (map f xs)) xss)"
  by (induction xss) simp_all

lemma token2graphviz_lines:
  "token2graphviz f s t include_feats = Some out
   \<Longrightarrow> out = concat (map (graphviz_lines s include_feats) (visited f s t))"
proof (induction f arbitrary: t out)
  case 0
  then show ?case by simp
next
  case (Suc f)
  from graphviz_feats_escaped [OF Suc.prems] obtain blocks where
    b: "list_all2 (\<lambda>c b. token2graphviz f s c include_feats = Some b)
          (get_children_of s (index t)) blocks"
    and o: "out = graphviz_lines s include_feats t @ concat blocks"
    unfolding graphviz_lines_def get_children_of_def by auto
  from b have "list_all2 (\<lambda>c b. b = concat (map (graphviz_lines s include_feats) (visited f s c)))
      (get_children_of s (index t)) blocks"
    by (rule list_all2_mono) (rule Suc.IH)
  then have "blocks = map (\<lambda>c. concat (map (graphviz_lines s include_feats) (visited f s c)))
      (get_children_of s (index t))"
    by (rule list_all2_eq_map)
  with o show ?case
    by (simp add: get_children_of_def concat_map_concat comp_def)
qed

lemma convert_to_graphviz_lines:
  assumes "convert_to_graphviz n s include_feats = Some out"
  shows "out = ''digraph tree {'' @ [NEWLINE]
           @ concat (map (graphviz_lines s include_feats) (traversal n s)) @ ''}''"
proof -
  from convert_to_graphviz_Some [OF assms] obtain blocks where
    b: "list_all2 (\<lambda>root b. token2graphviz n s root include_feats = Some b)
          (get_children_of s 0) blocks"
    and o: "out = ''digraph tree {'' @ [NEWLINE] @ concat blocks @ ''}''"
    by blast
  from b have "list_all2 (\<lambda>c b. b = concat (map (graphviz_lines s include_feats) (visited n s c)))
      (get_children_of s 0) blocks"
    by (rule list_all2_mono) (rule token2graphviz_lines)
  then have "blocks = map (\<lambda>c. concat (map (graphviz_lines s include_feats) (visited n s c)))
      (get_children_of s 0)"
    by (rule list_all2_eq_map)
  with o show ?thesis
    by (simp add: get_children_of_def traversal_def concat_map_concat comp_def)
qed

lemma token2latex_text:
  "token2latex f s t include_feats = Some out
   \<Longrightarrow> hyphenated out = latex_text f s include_feats t"
proof (induction f arbitrary: t out)
  case 0
  then show ?case by simp
next
  case (Suc f)
  from hyphenated_token2latex [OF Suc.prems] obtain blocks where
    b: "list_all2 (\<lambda>c b. token2latex f s c include_feats = Some b)
          (get_children_of s (index t)) blocks"
    and o: "hyphenated out =
            ''[.{'' @ hyphenated (deplabel t) @ [BACKSLASH, BACKSLASH] @ hyphenated (form t)
            @ '' ('' @ hyphenated (pos t) @ '')''
            @ (if include_feats \<and> feats t \<noteq> []
               then [BACKSLASH, BACKSLASH] @ '' {'' @ [BACKSLASH] @ ''tiny ''
                    @ hyphenated (feats t) @ ''}''
               else [])
            @ ''} '' @ concat (map hyphenated blocks) @ '' ]''"
    by blast
  from b have "list_all2 (\<lambda>c b. hyphenated b = latex_text f s include_feats c)
      (get_children_of s (index t)) blocks"
    by (rule list_all2_mono) (rule Suc.IH)
  then have "map hyphenated blocks = map (latex_text f s include_feats)
      (get_children_of s (index t))"
    by (induction rule: list_all2_induct) simp_all
  with o show ?case
    by (simp add: get_children_of_def)
qed

lemma convert_to_latex_text:
  assumes "convert_to_latex n s include_feats = Some out"
  shows "out = latex_open
           @ (if 2 \<le> length (filter (\<lambda>t. head t = 0) (tokens s))
              then ''[ '' @ concat (map (latex_text n s include_feats)
                                     (filter (\<lambda>t. head t = 0) (tokens s))) @ ''] ''
              else concat (map (latex_text n s include_feats)
                             (filter (\<lambda>t. head t = 0) (tokens s))))
           @ latex_close"
proof -
  from hyphenated_convert_to_latex [OF assms] obtain blocks where
    b: "list_all2 (\<lambda>root b. token2latex n s root include_feats = Some b)
          (get_children_of s 0) blocks"
    and o: "out = latex_open
                 @ (if length (get_children_of s 0) > 1
                    then ''[ '' @ concat (map hyphenated blocks) @ ''] ''
                    else concat (map hyphenated blocks))
                 @ latex_close"
    by blast
  from b have "list_all2 (\<lambda>c b. hyphenated b = latex_text n s include_feats c)
      (get_children_of s 0) blocks"
    by (rule list_all2_mono) (rule token2latex_text)
  then have "map hyphenated blocks = map (latex_text n s include_feats) (get_children_of s 0)"
    by (induction rule: list_all2_induct) simp_all
  moreover have "length (get_children_of s 0) > 1 \<longleftrightarrow> 2 \<le> length (get_children_of s 0)"
    by arith
  ultimately show ?thesis using o
    by (simp add: get_children_of_def)
qed

lemma convert_to_graphviz_total:
  assumes "level s n = {}"
  shows "convert_to_graphviz n s include_feats =
           Some (''digraph tree {'' @ [NEWLINE]
             @ concat (map (graphviz_lines s include_feats) (traversal n s)) @ ''}'')"
proof -
  from assms have "convert_to_graphviz n s include_feats \<noteq> None"
    by (simp add: convert_to_graphviz_None_iff)
  then obtain out where o: "convert_to_graphviz n s include_feats = Some out" by blast
  from convert_to_graphviz_lines [OF o] o show ?thesis by simp
qed

lemma convert_to_latex_total:
  assumes "level s n = {}"
  shows "convert_to_latex n s include_feats =
           Some (latex_open
             @ (if 2 \<le> length (filter (\<lambda>t. head t = 0) (tokens s))
                then ''[ '' @ concat (map (latex_text n s include_feats)
                                       (filter (\<lambda>t. head t = 0) (tokens s))) @ ''] ''
                else concat (map (latex_text n s include_feats)
                               (filter (\<lambda>t. head t = 0) (tokens s))))
             @ latex_close)"
proof -
  from assms have "convert_to_latex n s include_feats \<noteq> None"
    by (simp add: convert_to_latex_None_iff)
  then obtain out where o: "convert_to_latex n s include_feats = Some out" by blast
  from convert_to_latex_text [OF o] o show ?thesis by simp
qed

text \<open>
  With unique indices, none of them 0, no token is visited twice.
\<close>

lemma under_prepend:
  "c1 \<in> set (tokens s) \<Longrightarrow> head c1 = index c \<Longrightarrow> under s c1 k \<subseteq> under s c (Suc k)"
proof (induction k)
  case 0
  then show ?case by auto
next
  case (Suc k)
  then have "under s c1 k \<subseteq> under s c (Suc k)" by simp
  then show ?case by (simp only: under.simps) blast
qed

lemma visited_under: "x \<in> set (visited f s c) \<Longrightarrow> \<exists>k<f. x \<in> under s c k"
proof (induction f arbitrary: c x)
  case 0
  then show ?case by simp
next
  case (Suc f)
  show ?case
  proof (cases "x = c")
    case True
    then show ?thesis by (intro exI [of _ 0]) simp
  next
    case False
    with Suc.prems obtain c1 where c1: "c1 \<in> set (tokens s)" "head c1 = index c"
      "x \<in> set (visited f s c1)"
      by auto
    from Suc.IH [OF c1(3)] obtain k where "k < f" "x \<in> under s c1 k" by blast
    with under_prepend [OF c1(1,2), of k] show ?thesis
      by (intro exI [of _ "Suc k"]) auto
  qed
qed

lemma under_level: "c \<in> level s m \<Longrightarrow> under s c k \<subseteq> level s (m + k)"
proof (induction k)
  case 0
  then show ?case by simp
next
  case (Suc k)
  then have "under s c k \<subseteq> level s (m + k)" by simp
  then show ?case by auto
qed

lemma under_unique:
  assumes u: "distinct (map index (tokens s))"
    and c: "c \<in> level s m" "c' \<in> level s m"
  shows "x \<in> under s c k \<Longrightarrow> x \<in> under s c' k \<Longrightarrow> c = c'"
proof (induction k arbitrary: x)
  case 0
  then show ?case by simp
next
  case (Suc k)
  from Suc.prems obtain p p' where p: "p \<in> under s c k" "head x = index p"
    and p': "p' \<in> under s c' k" "head x = index p'"
    by auto
  from p(1) p'(1) under_level [OF c(1), of k] under_level [OF c(2), of k] level_subset
  have "p \<in> set (tokens s)" "p' \<in> set (tokens s)" by blast+
  with p(2) p'(2) u have "p = p'"
    by (metis distinct_map inj_onD)
  with p(1) p'(1) show ?case by (intro Suc.IH [of p]) simp_all
qed

lemma visited_disjoint:
  assumes u: "distinct (map index (tokens s))" and z: "\<forall>t \<in> set (tokens s). index t \<noteq> 0"
    and c: "c \<in> level s m" "c' \<in> level s m"
    and x: "x \<in> set (visited f s c)" "x \<in> set (visited f' s c')"
  shows "c = c'"
proof -
  from visited_under [OF x(1)] obtain k where k: "x \<in> under s c k" by blast
  from visited_under [OF x(2)] obtain k' where k': "x \<in> under s c' k'" by blast
  from k k' under_level [OF c(1), of k] under_level [OF c(2), of k']
  have "x \<in> level s (m + k)" "x \<in> level s (m + k')" by blast+
  then have "m + k = m + k'" by (rule level_disjoint [OF u z])
  with k k' show ?thesis by (intro under_unique [OF u c, of x k]) simp_all
qed

lemma distinct_concat_map:
  assumes "distinct cs" and "\<And>c. c \<in> set cs \<Longrightarrow> distinct (v c)"
    and "\<And>c c'. c \<in> set cs \<Longrightarrow> c' \<in> set cs \<Longrightarrow> set (v c) \<inter> set (v c') \<noteq> {} \<Longrightarrow> c = c'"
  shows "distinct (concat (map v cs))"
  using assms
proof (induction cs)
  case Nil
  show ?case by simp
next
  case (Cons c cs)
  have "set (v c) \<inter> set (v c') = {}" if "c' \<in> set cs" for c'
    using Cons.prems(1) Cons.prems(3) [of c c'] that by auto
  moreover have "distinct (concat (map v cs))"
    using Cons.prems by (intro Cons.IH) auto
  ultimately show ?case using Cons.prems(2) [of c] by auto
qed

lemma tokens_distinct: "distinct (map index (tokens s)) \<Longrightarrow> distinct (tokens s)"
  by (rule distinct_map [THEN iffD1, THEN conjunct1])

lemma visited_distinct:
  assumes u: "distinct (map index (tokens s))" and z: "\<forall>t \<in> set (tokens s). index t \<noteq> 0"
  shows "t \<in> level s d \<Longrightarrow> distinct (visited f s t)"
proof (induction f arbitrary: t d)
  case 0
  show ?case by simp
next
  case (Suc f)
  let ?cs = "filter (\<lambda>c. head c = index t) (tokens s)"
  have lv: "c \<in> level s (Suc d)" if "c \<in> set ?cs" for c
    using that Suc.prems by auto
  have "t \<notin> set (concat (map (visited f s) ?cs))"
  proof
    assume "t \<in> set (concat (map (visited f s) ?cs))"
    then obtain c where c: "c \<in> set ?cs" "t \<in> set (visited f s c)" by auto
    from visited_under [OF c(2)] obtain k where "t \<in> under s c k" by blast
    with under_level [OF lv [OF c(1)], of k] have "t \<in> level s (Suc d + k)" by blast
    with Suc.prems have "d = Suc d + k" by (intro level_disjoint [OF u z, of t])
    then show False by simp
  qed
  moreover have "distinct (concat (map (visited f s) ?cs))"
  proof (rule distinct_concat_map)
    show "distinct ?cs" using tokens_distinct [OF u] by simp
    show "distinct (visited f s c)" if "c \<in> set ?cs" for c
      using lv [OF that] by (rule Suc.IH)
    show "c = c'" if "c \<in> set ?cs" "c' \<in> set ?cs"
      "set (visited f s c) \<inter> set (visited f s c') \<noteq> {}" for c c'
    proof -
      from that(3) obtain x where "x \<in> set (visited f s c)" "x \<in> set (visited f s c')" by blast
      with lv [OF that(1)] lv [OF that(2)] show ?thesis by (intro visited_disjoint [OF u z])
    qed
  qed
  ultimately show ?case by simp
qed

lemma traversal_distinct:
  assumes u: "distinct (map index (tokens s))" and z: "\<forall>t \<in> set (tokens s). index t \<noteq> 0"
  shows "distinct (traversal n s)"
  unfolding traversal_def
proof (rule distinct_concat_map)
  show "distinct (filter (\<lambda>t. head t = 0) (tokens s))" using tokens_distinct [OF u] by simp
  show "distinct (visited n s c)" if "c \<in> set (filter (\<lambda>t. head t = 0) (tokens s))" for c
    using that by (intro visited_distinct [OF u z, of c 0]) simp
  show "c = c'" if "c \<in> set (filter (\<lambda>t. head t = 0) (tokens s))"
    "c' \<in> set (filter (\<lambda>t. head t = 0) (tokens s))"
    "set (visited n s c) \<inter> set (visited n s c') \<noteq> {}" for c c'
  proof -
    from that(3) obtain x where "x \<in> set (visited n s c)" "x \<in> set (visited n s c')" by blast
    moreover from that(1,2) have "c \<in> level s 0" "c' \<in> level s 0" by simp_all
    ultimately show ?thesis by (intro visited_disjoint [OF u z, of c 0 c' x n n])
  qed
qed

text \<open>
  The tokens visited are the tokens below the virtual root, and the children of a token
  are visited after it.
\<close>

lemma visited_self: "0 < f \<Longrightarrow> t \<in> set (visited f s t)"
  by (cases f) simp_all

lemma visited_child_subset:
  "c \<in> set (tokens s) \<Longrightarrow> head c = index t
   \<Longrightarrow> set (visited f s c) \<subseteq> set (visited (Suc f) s t)"
proof -
  assume "c \<in> set (tokens s)" "head c = index t"
  then have "c \<in> set (filter (\<lambda>c. head c = index t) (tokens s))" by simp
  then have "set (visited f s c)
      \<subseteq> set (concat (map (visited f s) (filter (\<lambda>c. head c = index t) (tokens s))))"
    unfolding set_concat by (intro Union_upper) (simp only: set_map image_iff, blast)
  then show ?thesis by (simp only: visited.simps set_simps) blast
qed

lemma traversal_in_level: "x \<in> set (traversal n s) \<Longrightarrow> \<exists>d. x \<in> level s d"
proof -
  assume "x \<in> set (traversal n s)"
  then obtain r where r: "r \<in> level s 0" "x \<in> set (visited n s r)"
    by (auto simp: traversal_def)
  from visited_under [OF r(2)] obtain k where "x \<in> under s r k" by blast
  with under_level [OF r(1), of k] show ?thesis by auto
qed

lemma level_in_traversal:
  "x \<in> level s d \<Longrightarrow> d < n
   \<Longrightarrow> \<exists>r \<in> level s 0. set (visited (n - d) s x) \<subseteq> set (visited n s r)"
proof (induction d arbitrary: x)
  case 0
  then show ?case by auto
next
  case (Suc d)
  from Suc.prems(1) obtain p where p: "p \<in> level s d" "head x = index p"
    and x: "x \<in> set (tokens s)"
    by auto
  from Suc.IH [OF p(1)] Suc.prems(2) obtain r where
    r: "r \<in> level s 0" "set (visited (n - d) s p) \<subseteq> set (visited n s r)"
    by auto
  from Suc.prems(2) have "n - d = Suc (n - Suc d)" by simp
  with visited_child_subset [OF x p(2), of "n - Suc d"] r show ?case by auto
qed

lemma level_below_empty: "level s n = {} \<Longrightarrow> x \<in> level s d \<Longrightarrow> d < n"
  using level_empty_above [of s n "d - n"] by (cases "d < n") auto

lemma traversal_set:
  assumes n: "level s n = {}"
  shows "set (traversal n s) = (\<Union>d. level s d)"
proof
  show "set (traversal n s) \<subseteq> (\<Union>d. level s d)"
  proof
    fix x assume "x \<in> set (traversal n s)"
    from traversal_in_level [OF this] show "x \<in> (\<Union>d. level s d)" by blast
  qed
  show "(\<Union>d. level s d) \<subseteq> set (traversal n s)"
  proof
    fix x assume "x \<in> (\<Union>d. level s d)"
    then obtain d where d: "x \<in> level s d" by blast
    from level_below_empty [OF n d] have dn: "d < n" .
    from level_in_traversal [OF d dn] obtain r where
      r: "r \<in> level s 0" "set (visited (n - d) s x) \<subseteq> set (visited n s r)"
      by blast
    from dn have "x \<in> set (visited (n - d) s x)" by (intro visited_self) simp
    with r show "x \<in> set (traversal n s)" by (auto simp: traversal_def)
  qed
qed

lemma visited_children_after:
  "r \<in> level s d \<Longrightarrow> level s (f + d) = {} \<Longrightarrow> t \<in> set (visited f s r)
    \<Longrightarrow> \<exists>pre post. visited f s r = pre @ t # post
          \<and> set (filter (\<lambda>c. head c = index t) (tokens s)) \<subseteq> set post"
proof (induction f arbitrary: r d)
  case 0
  then show ?case by simp
next
  case (Suc f)
  let ?cs = "filter (\<lambda>c. head c = index r) (tokens s)"
  show ?case
  proof (cases "t = r")
    case True
    have "c \<in> set (concat (map (visited f s) ?cs))" if "c \<in> set ?cs" for c
    proof -
      from that Suc.prems(1) have "c \<in> level s (Suc d)" by auto
      from level_below_empty [OF Suc.prems(2) this] have "0 < f" by simp
      then have "c \<in> set (visited f s c)" by (rule visited_self)
      with that show ?thesis by auto
    qed
    with True show ?thesis
      by (intro exI [of _ "[]"] exI [of _ "concat (map (visited f s) ?cs)"]) auto
  next
    case False
    with Suc.prems(3) obtain c where c: "c \<in> set ?cs" "t \<in> set (visited f s c)" by auto
    from c(1) Suc.prems(1) have lv: "c \<in> level s (Suc d)" by auto
    from Suc.IH [OF lv _ c(2)] Suc.prems(2) obtain pre post where
      v: "visited f s c = pre @ t # post"
      and ch: "set (filter (\<lambda>c. head c = index t) (tokens s)) \<subseteq> set post"
      by auto
    from c(1) obtain as bs where "?cs = as @ c # bs" by (auto dest: split_list)
    then have "visited (Suc f) s r
        = (r # concat (map (visited f s) as) @ pre) @ t # (post @ concat (map (visited f s) bs))"
      by (simp add: v)
    with ch show ?thesis
      by (intro exI [of _ "r # concat (map (visited f s) as) @ pre"]
            exI [of _ "post @ concat (map (visited f s) bs)"]) auto
  qed
qed

lemma traversal_children_after:
  assumes n: "level s n = {}" and t: "t \<in> set (traversal n s)"
  shows "\<exists>pre post. traversal n s = pre @ t # post
          \<and> set (filter (\<lambda>c. head c = index t) (tokens s)) \<subseteq> set post"
proof -
  let ?rs = "filter (\<lambda>t. head t = 0) (tokens s)"
  from t obtain r where r: "r \<in> set ?rs" "t \<in> set (visited n s r)"
    by (auto simp: traversal_def)
  then have "r \<in> level s 0" by simp
  from visited_children_after [OF this _ r(2)] n obtain pre post where
    v: "visited n s r = pre @ t # post"
    and ch: "set (filter (\<lambda>c. head c = index t) (tokens s)) \<subseteq> set post"
    by auto
  from r(1) obtain as bs where "?rs = as @ r # bs" by (auto dest: split_list)
  then have "traversal n s
      = (concat (map (visited n s) as) @ pre) @ t # (post @ concat (map (visited n s) bs))"
    by (simp add: traversal_def v)
  with ch show ?thesis
    by (intro exI [of _ "concat (map (visited n s) as) @ pre"]
          exI [of _ "post @ concat (map (visited n s) bs)"]) auto
qed

lemma ex_petit_level: "level ex_petit 3 = {}"
proof -
  have "convert_to_graphviz 3 ex_petit False \<noteq> None" by code_simp
  then show ?thesis by (simp add: convert_to_graphviz_None_iff)
qed

lemma ex_petit_traversal:
  "traversal 3 ex_petit = [tokens ex_petit ! 2, tokens ex_petit ! 0, tokens ex_petit ! 1]"
  by code_simp

lemma ex_petit_lines:
  "graphviz_lines ex_petit False (tokens ex_petit ! 2) =
     ''n3 [label='' @ [DQUOTE] @ ''chat'' @ [BACKSLASH] @ ''nNOUN (root)''
       @ [DQUOTE] @ ''];'' @ [NEWLINE]
       @ ''n3 -> {n1 n2};'' @ [NEWLINE]"
  by code_simp

lemma ex_sentence_level: "level ex_sentence 2 = {}"
proof -
  have "convert_to_graphviz 2 ex_sentence False \<noteq> None" by code_simp
  then show ?thesis by (simp add: convert_to_graphviz_None_iff)
qed

lemma ex_sentence_latex_text:
  "latex_text 2 ex_sentence True ex_chat =
     ''[.{root'' @ [BACKSLASH, BACKSLASH] @ ''chat (NOUN)'' @ [BACKSLASH, BACKSLASH]
     @ '' {'' @ [BACKSLASH] @ ''tiny -}} [.{det'' @ [BACKSLASH, BACKSLASH] @ ''Le (DET)''
     @ [BACKSLASH, BACKSLASH] @ '' {'' @ [BACKSLASH] @ ''tiny -}}  ] ]''"
  by code_simp

lemma ex_sentence_graphviz_lines:
  "graphviz_lines ex_sentence True ex_le =
     ''n1 [label='' @ [DQUOTE] @ ''Le'' @ [BACKSLASH] @ ''nDET (det)'' @ [BACKSLASH] @ ''n_''
     @ [DQUOTE] @ ''];'' @ [NEWLINE]"
  by code_simp

lemma ex_sentence_roots: "filter (\<lambda>t. head t = 0) (tokens ex_sentence) = [ex_chat]"
  by (simp add: ex_defs)

lemma ex_sentence_traversal: "traversal 2 ex_sentence = [ex_chat, ex_le]"
  by code_simp

section \<open>The edge line of the graphviz renderer\<close>

text \<open>
  C4, as stated, fails: in the sentence \<open>ex_cycle\<close>, whose indices are unique, each of the
  two tokens has a child, and the graphviz output has no edge line at all. No token has
  head 0, so the renderer visits no token.
\<close>

theorem unvisited_parent_counterexample:
  "has_children ex_cycle (index (tokens ex_cycle ! 0))
   \<and> has_children ex_cycle (index (tokens ex_cycle ! 1))
   \<and> distinct (map index (tokens ex_cycle))
   \<and> convert_to_graphviz 2 ex_cycle False = Some (''digraph tree {'' @ [NEWLINE] @ ''}'')
   \<and> \<not> sublist ''->'' (''digraph tree {'' @ [NEWLINE] @ ''}'')"
  by code_simp

text \<open>
  C4, amended. When a sentence is rendered within the depth that the call stack admits,
  the graphviz output is the opening line, the lines of the tokens that the renderer
  visits, in the order of the visits, and the closing brace. The tokens visited are those
  reached from the virtual root 0 along the head pointers; a token on a cycle of head
  pointers away from the root gets no line. The lines of a visited token are its node
  line and, right after it, if and only if some token has the token's index as head, one
  edge line whose source is the token's node name and whose target set lists the node
  names of all the tokens with that head, in the order of the sentence; the lines of
  these children come later in the output. With unique indices, none of them 0, every
  visited token is visited once, so that it has this one edge line, and the depth of the
  number of tokens is enough. In particular the sentence of two tokens (1 \<^verbatim>\<open>Le\<close>,
  head 2; 2 \<^verbatim>\<open>chat\<close>, head 0) gives two node lines and the one edge line
  \<^verbatim>\<open>n2 -> {n1};\<close>.
\<close>

theorem graphviz_blocks_of_visited_tokens:
  assumes "level s n = {}"
  shows "convert_to_graphviz n s include_feats =
           Some (''digraph tree {'' @ [NEWLINE]
             @ concat (map (graphviz_lines s include_feats) (traversal n s)) @ ''}'')
       \<and> (\<forall>t. graphviz_lines s include_feats t =
              ''n'' @ fmt_d (index t) @ '' [label='' @ [DQUOTE]
              @ quot (form t) @ [BACKSLASH] @ ''n'' @ quot (pos t)
              @ '' ('' @ quot (deplabel t) @ '')''
              @ (if include_feats \<and> feats t \<noteq> []
                 then [BACKSLASH] @ ''n'' @ quot (feats t) else [])
              @ [DQUOTE] @ ''];'' @ [NEWLINE]
              @ (if filter (\<lambda>c. head c = index t) (tokens s) \<noteq> []
                 then ''n'' @ fmt_d (index t) @ '' -> {''
                      @ join '' '' (map (\<lambda>c. ''n'' @ fmt_d (index c))
                                     (filter (\<lambda>c. head c = index t) (tokens s)))
                      @ ''};'' @ [NEWLINE]
                 else []))
       \<and> traversal n s = concat (map (visited n s) (filter (\<lambda>t. head t = 0) (tokens s)))
       \<and> (\<forall>m t. visited (Suc m) s t =
              t # concat (map (visited m s) (filter (\<lambda>c. head c = index t) (tokens s))))
       \<and> set (traversal n s) = (\<Union>d. level s d)
       \<and> (\<forall>t \<in> set (traversal n s). \<exists>pre post. traversal n s = pre @ t # post
              \<and> set (filter (\<lambda>c. head c = index t) (tokens s)) \<subseteq> set post)
       \<and> (distinct (map index (tokens s)) \<and> (\<forall>t \<in> set (tokens s). index t \<noteq> 0)
            \<longrightarrow> distinct (traversal n s))
       \<and> (distinct (map index (tokens s)) \<and> (\<forall>t \<in> set (tokens s). index t \<noteq> 0)
            \<longrightarrow> level s (length (tokens s)) = {})
       \<and> convert_to_graphviz 2 ex_sentence False =
           Some (''digraph tree {'' @ [NEWLINE]
             @ ''n2 [label='' @ [DQUOTE] @ ''chat'' @ [BACKSLASH] @ ''nNOUN (root)''
             @ [DQUOTE] @ ''];'' @ [NEWLINE]
             @ ''n2 -> {n1};'' @ [NEWLINE]
             @ ''n1 [label='' @ [DQUOTE] @ ''Le'' @ [BACKSLASH] @ ''nDET (det)''
             @ [DQUOTE] @ ''];'' @ [NEWLINE]
             @ ''}'')"
proof (intro conjI allI ballI impI)
  show "convert_to_graphviz n s include_feats =
           Some (''digraph tree {'' @ [NEWLINE]
             @ concat (map (graphviz_lines s include_feats) (traversal n s)) @ ''}'')"
    by (rule convert_to_graphviz_total [OF assms])
  show "traversal n s = concat (map (visited n s) (filter (\<lambda>t. head t = 0) (tokens s)))"
    by (rule traversal_def)
  show "visited (Suc m) s t =
      t # concat (map (visited m s) (filter (\<lambda>c. head c = index t) (tokens s)))" for m t
    by (rule visited.simps)
  show "set (traversal n s) = (\<Union>d. level s d)"
    by (rule traversal_set [OF assms])
  show "\<exists>pre post. traversal n s = pre @ t # post
              \<and> set (filter (\<lambda>c. head c = index t) (tokens s)) \<subseteq> set post"
    if "t \<in> set (traversal n s)" for t
    by (rule traversal_children_after [OF assms that])
  show "distinct (traversal n s)"
    if "distinct (map index (tokens s)) \<and> (\<forall>t \<in> set (tokens s). index t \<noteq> 0)"
    using that by (intro traversal_distinct) simp_all
  show "level s (length (tokens s)) = {}"
    if "distinct (map index (tokens s)) \<and> (\<forall>t \<in> set (tokens s). index t \<noteq> 0)"
    using that level_bound [of s "length (tokens s)"] by blast
  show "graphviz_lines s include_feats t =
              ''n'' @ fmt_d (index t) @ '' [label='' @ [DQUOTE]
              @ quot (form t) @ [BACKSLASH] @ ''n'' @ quot (pos t)
              @ '' ('' @ quot (deplabel t) @ '')''
              @ (if include_feats \<and> feats t \<noteq> []
                 then [BACKSLASH] @ ''n'' @ quot (feats t) else [])
              @ [DQUOTE] @ ''];'' @ [NEWLINE]
              @ (if filter (\<lambda>c. head c = index t) (tokens s) \<noteq> []
                 then ''n'' @ fmt_d (index t) @ '' -> {''
                      @ join '' '' (map (\<lambda>c. ''n'' @ fmt_d (index c))
                                     (filter (\<lambda>c. head c = index t) (tokens s)))
                      @ ''};'' @ [NEWLINE]
                 else [])" for t
    by (simp add: graphviz_lines_def)
  show "convert_to_graphviz 2 ex_sentence False =
           Some (''digraph tree {'' @ [NEWLINE]
             @ ''n2 [label='' @ [DQUOTE] @ ''chat'' @ [BACKSLASH] @ ''nNOUN (root)''
             @ [DQUOTE] @ ''];'' @ [NEWLINE]
             @ ''n2 -> {n1};'' @ [NEWLINE]
             @ ''n1 [label='' @ [DQUOTE] @ ''Le'' @ [BACKSLASH] @ ''nDET (det)''
             @ [DQUOTE] @ ''];'' @ [NEWLINE]
             @ ''}'')"
    by (rule ex_graphviz)
qed

theorem graphviz_blocks_of_visited_tokens_witness:
  "level ex_petit 3 = {}
   \<and> convert_to_graphviz 3 ex_petit False =
       Some (''digraph tree {'' @ [NEWLINE]
         @ concat (map (graphviz_lines ex_petit False)
             [tokens ex_petit ! 2, tokens ex_petit ! 0, tokens ex_petit ! 1]) @ ''}'')
   \<and> graphviz_lines ex_petit False (tokens ex_petit ! 2) =
       ''n3 [label='' @ [DQUOTE] @ ''chat'' @ [BACKSLASH] @ ''nNOUN (root)''
       @ [DQUOTE] @ ''];'' @ [NEWLINE]
       @ ''n3 -> {n1 n2};'' @ [NEWLINE]
   \<and> distinct (traversal 3 ex_petit)
   \<and> (\<exists>pre post. traversal 3 ex_petit = pre @ (tokens ex_petit ! 2) # post
         \<and> set (filter (\<lambda>c. head c = index (tokens ex_petit ! 2)) (tokens ex_petit))
             \<subseteq> set post)"
proof -
  have u: "distinct (map index (tokens ex_petit)) \<and> (\<forall>t \<in> set (tokens ex_petit). index t \<noteq> 0)"
    by (simp add: ex_petit_def Token_def)
  have v: "tokens ex_petit ! 2 \<in> set (traversal 3 ex_petit)"
    unfolding ex_petit_traversal by simp
  note inst = graphviz_blocks_of_visited_tokens [OF ex_petit_level, of False]
  from inst have "convert_to_graphviz 3 ex_petit False =
       Some (''digraph tree {'' @ [NEWLINE]
         @ concat (map (graphviz_lines ex_petit False) (traversal 3 ex_petit)) @ ''}'')"
    by (rule conjunct1)
  then have o: "convert_to_graphviz 3 ex_petit False =
       Some (''digraph tree {'' @ [NEWLINE]
         @ concat (map (graphviz_lines ex_petit False)
             [tokens ex_petit ! 2, tokens ex_petit ! 0, tokens ex_petit ! 1]) @ ''}'')"
    by (simp only: ex_petit_traversal)
  from inst u have d: "distinct (traversal 3 ex_petit)" by blast
  from inst have "\<forall>t \<in> set (traversal 3 ex_petit).
      \<exists>pre post. traversal 3 ex_petit = pre @ t # post
         \<and> set (filter (\<lambda>c. head c = index t) (tokens ex_petit)) \<subseteq> set post"
    by (elim conjE)
  from this v have a: "\<exists>pre post. traversal 3 ex_petit = pre @ (tokens ex_petit ! 2) # post
         \<and> set (filter (\<lambda>c. head c = index (tokens ex_petit ! 2)) (tokens ex_petit))
             \<subseteq> set post"
    by (rule bspec)
  show ?thesis
    by (intro conjI ex_petit_level o ex_petit_lines d a)
qed

section \<open>The feature string in the renderings\<close>

text \<open>
  C6, as stated, fails: with \<^verbatim>\<open>include_feats\<close> set, the token \<^verbatim>\<open>chat\<close> of the example
  has the non-empty feature string \<^verbatim>\<open>_\<close>, and this string occurs nowhere in the LaTeX
  block of the sentence. And in the sentence \<open>ex_cycle\<close> both tokens have the non-empty
  feature string \<^verbatim>\<open>_\<close>, which occurs in the output of neither renderer: no token has
  head 0, so none is rendered.
\<close>

theorem feats_verbatim_counterexample:
  "feats ex_chat = ''_''
   \<and> convert_to_latex 2 ex_sentence True =
       Some (latex_open @ ''[.{root'' @ [BACKSLASH, BACKSLASH] @ ''chat (NOUN)''
         @ [BACKSLASH, BACKSLASH] @ '' {'' @ [BACKSLASH] @ ''tiny -}} [.{det''
         @ [BACKSLASH, BACKSLASH] @ ''Le (DET)'' @ [BACKSLASH, BACKSLASH]
         @ '' {'' @ [BACKSLASH] @ ''tiny -}}  ] ]'' @ latex_close)
   \<and> \<not> sublist (feats ex_chat)
         (latex_open @ ''[.{root'' @ [BACKSLASH, BACKSLASH] @ ''chat (NOUN)''
         @ [BACKSLASH, BACKSLASH] @ '' {'' @ [BACKSLASH] @ ''tiny -}} [.{det''
         @ [BACKSLASH, BACKSLASH] @ ''Le (DET)'' @ [BACKSLASH, BACKSLASH]
         @ '' {'' @ [BACKSLASH] @ ''tiny -}}  ] ]'' @ latex_close)
   \<and> feats (tokens ex_cycle ! 0) = ''_'' \<and> feats (tokens ex_cycle ! 1) = ''_''
   \<and> convert_to_latex 2 ex_cycle True = Some (latex_open @ latex_close)
   \<and> convert_to_graphviz 2 ex_cycle True = Some (''digraph tree {'' @ [NEWLINE] @ ''}'')
   \<and> \<not> sublist ''_'' (''digraph tree {'' @ [NEWLINE] @ ''}'')"
proof -
  have f: "feats ex_chat = ''_''"
    by (simp add: ex_defs replace_chr_Cons replace_chr_Nil)
  have c: "get_children_of ex_cycle 0 = []"
    by (simp add: get_children_of_def ex_cycle_def Token_def)
  have f0: "feats (tokens ex_cycle ! 0) = ''_''" and f1: "feats (tokens ex_cycle ! 1) = ''_''"
    by (simp_all add: ex_cycle_def Token_def replace_chr_Cons replace_chr_Nil)
  have l: "convert_to_latex 2 ex_cycle True = Some (latex_open @ latex_close)"
    by (simp add: convert_to_latex_def assemble_latex_def c replace_chr_append
          us_latex_open us_latex_close)
  have g: "convert_to_graphviz 2 ex_cycle True
      = Some (''digraph tree {'' @ [NEWLINE] @ ''}'')"
    by (simp add: convert_to_graphviz_def c)
  have n: "\<not> sublist ''_'' (''digraph tree {'' @ [NEWLINE] @ ''}'')"
    by (simp add: sublist_single NEWLINE_def)
  from convert_to_latex_no_underscore [OF ex_latex] f ex_latex
  have m: "feats ex_chat = ''_''
   \<and> convert_to_latex 2 ex_sentence True =
       Some (latex_open @ ''[.{root'' @ [BACKSLASH, BACKSLASH] @ ''chat (NOUN)''
         @ [BACKSLASH, BACKSLASH] @ '' {'' @ [BACKSLASH] @ ''tiny -}} [.{det''
         @ [BACKSLASH, BACKSLASH] @ ''Le (DET)'' @ [BACKSLASH, BACKSLASH]
         @ '' {'' @ [BACKSLASH] @ ''tiny -}}  ] ]'' @ latex_close)
   \<and> \<not> sublist (feats ex_chat)
         (latex_open @ ''[.{root'' @ [BACKSLASH, BACKSLASH] @ ''chat (NOUN)''
         @ [BACKSLASH, BACKSLASH] @ '' {'' @ [BACKSLASH] @ ''tiny -}} [.{det''
         @ [BACKSLASH, BACKSLASH] @ ''Le (DET)'' @ [BACKSLASH, BACKSLASH]
         @ '' {'' @ [BACKSLASH] @ ''tiny -}}  ] ]'' @ latex_close)"
    by (simp only: sublist_single simp_thms)
  show ?thesis
    by (intro conjI m [THEN conjunct1] m [THEN conjunct2, THEN conjunct1]
          m [THEN conjunct2, THEN conjunct2] f0 f1 l g n)
qed

text \<open>
  C6, amended. For every token, the separators \<^verbatim>\<open>|\<close> of the raw feature field are
  replaced by a comma and a space once, when the token is constructed. When a sentence
  is rendered within the depth that the call stack admits, each renderer emits a
  feature segment for exactly those tokens that it visits (the tokens reached from the
  virtual root 0 along the head pointers) whose feature string is not empty, and only if
  \<^verbatim>\<open>include_feats\<close> is true; a token that is not reached is not rendered, with or without
  features. The segment carries the feature string as the renderer escapes it: in the
  LaTeX block with each underscore replaced by a hyphen (the pass over the whole
  string), in the graphviz label with each double quote replaced by \<^verbatim>\<open>&quot;\<close>.
\<close>

theorem feature_segment_escaped:
  assumes "level s n = {}"
  shows "feats (Token i f l p raw h d) = replace_chr CHR ''|'' '', '' raw
   \<and> feats (Token i f l p ''Gender=Masc|Number=Sing'' h d) = ''Gender=Masc, Number=Sing''
   \<and> convert_to_latex n s include_feats =
       Some (latex_open
         @ (if 2 \<le> length (filter (\<lambda>t. head t = 0) (tokens s))
            then ''[ '' @ concat (map (latex_text n s include_feats)
                                   (filter (\<lambda>t. head t = 0) (tokens s))) @ ''] ''
            else concat (map (latex_text n s include_feats)
                           (filter (\<lambda>t. head t = 0) (tokens s))))
         @ latex_close)
   \<and> (\<forall>m t. latex_text (Suc m) s include_feats t =
         ''[.{'' @ hyphenated (deplabel t) @ [BACKSLASH, BACKSLASH] @ hyphenated (form t)
         @ '' ('' @ hyphenated (pos t) @ '')''
         @ (if include_feats \<and> feats t \<noteq> []
            then [BACKSLASH, BACKSLASH] @ '' {'' @ [BACKSLASH] @ ''tiny ''
                 @ hyphenated (feats t) @ ''}''
            else [])
         @ ''} ''
         @ concat (map (latex_text m s include_feats)
                     (filter (\<lambda>c. head c = index t) (tokens s)))
         @ '' ]'')
   \<and> convert_to_graphviz n s include_feats =
       Some (''digraph tree {'' @ [NEWLINE]
         @ concat (map (graphviz_lines s include_feats) (traversal n s)) @ ''}'')
   \<and> (\<forall>t. graphviz_lines s include_feats t =
         ''n'' @ fmt_d (index t) @ '' [label='' @ [DQUOTE]
         @ quot (form t) @ [BACKSLASH] @ ''n'' @ quot (pos t)
         @ '' ('' @ quot (deplabel t) @ '')''
         @ (if include_feats \<and> feats t \<noteq> []
            then [BACKSLASH] @ ''n'' @ quot (feats t) else [])
         @ [DQUOTE] @ ''];'' @ [NEWLINE]
         @ (if filter (\<lambda>c. head c = index t) (tokens s) \<noteq> []
            then ''n'' @ fmt_d (index t) @ '' -> {''
                 @ join '' '' (map (\<lambda>c. ''n'' @ fmt_d (index c))
                                (filter (\<lambda>c. head c = index t) (tokens s)))
                 @ ''};'' @ [NEWLINE]
            else []))
   \<and> set (traversal n s) = (\<Union>d. level s d)"
proof (intro conjI allI)
  show "feats (Token i f l p raw h d) = replace_chr CHR ''|'' '', '' raw"
    by (simp add: Token_def)
  show "feats (Token i f l p ''Gender=Masc|Number=Sing'' h d) = ''Gender=Masc, Number=Sing''"
    by (simp add: Token_def replace_chr_Cons replace_chr_Nil)
  show "set (traversal n s) = (\<Union>d. level s d)"
    by (rule traversal_set [OF assms])
qed (rule convert_to_latex_total [OF assms], rule latex_text.simps,
     rule convert_to_graphviz_total [OF assms], simp add: graphviz_lines_def)

theorem feature_segment_escaped_witness:
  "level ex_sentence 2 = {}
   \<and> feats ex_chat = ''_''
   \<and> convert_to_latex 2 ex_sentence True =
       Some (latex_open @ concat (map (latex_text 2 ex_sentence True) [ex_chat]) @ latex_close)
   \<and> latex_text 2 ex_sentence True ex_chat =
       ''[.{root'' @ [BACKSLASH, BACKSLASH] @ ''chat (NOUN)'' @ [BACKSLASH, BACKSLASH]
       @ '' {'' @ [BACKSLASH] @ ''tiny -}} [.{det'' @ [BACKSLASH, BACKSLASH] @ ''Le (DET)''
       @ [BACKSLASH, BACKSLASH] @ '' {'' @ [BACKSLASH] @ ''tiny -}}  ] ]''
   \<and> convert_to_graphviz 2 ex_sentence True =
       Some (''digraph tree {'' @ [NEWLINE]
         @ concat (map (graphviz_lines ex_sentence True) [ex_chat, ex_le]) @ ''}'')
   \<and> graphviz_lines ex_sentence True ex_le =
       ''n1 [label='' @ [DQUOTE] @ ''Le'' @ [BACKSLASH] @ ''nDET (det)'' @ [BACKSLASH] @ ''n_''
       @ [DQUOTE] @ ''];'' @ [NEWLINE]"
proof -
  have f: "feats ex_chat = ''_''"
    by (simp add: ex_defs replace_chr_Cons replace_chr_Nil)
  note inst = feature_segment_escaped [OF ex_sentence_level, of _ _ _ _ _ _ _ True]
  from inst have "convert_to_latex 2 ex_sentence True =
       Some (latex_open @ concat (map (latex_text 2 ex_sentence True) [ex_chat]) @ latex_close)"
    unfolding ex_sentence_roots by simp
  moreover from inst have "convert_to_graphviz 2 ex_sentence True =
       Some (''digraph tree {'' @ [NEWLINE]
         @ concat (map (graphviz_lines ex_sentence True) [ex_chat, ex_le]) @ ''}'')"
    unfolding ex_sentence_traversal by simp
  ultimately show ?thesis
    using f ex_sentence_level ex_sentence_latex_text ex_sentence_graphviz_lines
    by (simp only: simp_thms)
qed

end
